theory Spec2Isabelle
  imports Complex_Main
begin

section \<open>Progressive video analysis of the Veritas detector\<close>

text \<open>
  The development embeds \<^verbatim>\<open>handleProgressiveVideoAnalysis\<close> of \<^verbatim>\<open>src/App.tsx\<close>
  (lines 820-957) together with the pieces of the application state it touches
  (\<^verbatim>\<open>updateQueueItem\<close>, \<^verbatim>\<open>setResult\<close>, \<^verbatim>\<open>saveToHistory\<close>, \<^verbatim>\<open>addToast\<close>,
  \<^verbatim>\<open>removeFile\<close>) and the types of the repository's \<^verbatim>\<open>types.ts\<close>.

  JavaScript numbers are modelled as exact reals: \<^verbatim>\<open>NaN\<close> and the rounding of doubles
  are outside the model.  For the integer scores 0..100 and the frame counts the
  application works with, sums and quotients of doubles round the same way as the exact
  values do.  The one infinite value the function can meet, \<^verbatim>\<open>video.duration\<close> of media
  of unknown length, is part of the model of the sample schedule.
\<close>

subsection \<open>Numbers and strings\<close>

text \<open>\<^verbatim>\<open>Math.round\<close>: the nearest integer, a tie going up.\<close>

definition Math_round :: "real \<Rightarrow> real" where
  "Math_round x = of_int \<lfloor>x + 1 / 2\<rfloor>"

text \<open>Decimal rendering of a counter inside a template literal.\<close>

fun string_of_nat :: "nat \<Rightarrow> string" where
  "string_of_nat n =
     (if n < 10 then [''0123456789'' ! n]
      else string_of_nat (n div 10) @ [''0123456789'' ! (n mod 10)])"

subsection \<open>Data model (types.ts)\<close>

datatype MediaType = TEXT | IMAGE | AUDIO | VIDEO

datatype Label = Likely_AI | Likely_Human | Mixed_Uncertain

record KeyFeature =
  feature :: string
  impactScore :: real

record AnalysisResult =
  probabilityAI :: real
  label :: Label
  confidence :: real
  reasoning :: string
  keyFeatures :: "KeyFeature list"

datatype Status = Uploading | Ready | Analyzing | Done | Error

text \<open>
  A queue item.  \<open>qid\<close>, \<open>qresult\<close> and \<open>qerror\<close> are the fields \<^verbatim>\<open>id\<close>, \<^verbatim>\<open>result\<close> and
  \<^verbatim>\<open>error\<close>; \<open>fileName\<close> is \<^verbatim>\<open>file.name\<close>.  An optional field that is absent is \<open>None\<close>.
\<close>

record QueueItem =
  qid :: string
  fileName :: string
  status :: Status
  progress :: real
  previewUrl :: "string option"
  base64 :: "string option"
  mimeType :: string
  qresult :: "AnalysisResult option"
  qerror :: "string option"
  segmentsProcessed :: "nat option"
  totalSegments :: "nat option"

text \<open>\<^verbatim>\<open>Partial<QueueItem>\<close>, restricted to the fields the analysis ever passes.\<close>

record QueueItemUpdates =
  u_status :: "Status option"
  u_result :: "AnalysisResult option"
  u_error :: "string option"
  u_segmentsProcessed :: "nat option"
  u_totalSegments :: "nat option"

definition no_updates :: QueueItemUpdates where
  "no_updates = \<lparr>u_status = None, u_result = None, u_error = None,
     u_segmentsProcessed = None, u_totalSegments = None\<rparr>"

text \<open>The object spread \<^verbatim>\<open>{ ...item, ...updates }\<close>.\<close>

definition spread :: "QueueItem \<Rightarrow> QueueItemUpdates \<Rightarrow> QueueItem" where
  "spread item u = item\<lparr>
     status := (case u_status u of None \<Rightarrow> status item | Some s \<Rightarrow> s),
     qresult := (case u_result u of None \<Rightarrow> qresult item | Some r \<Rightarrow> Some r),
     qerror := (case u_error u of None \<Rightarrow> qerror item | Some e \<Rightarrow> Some e),
     segmentsProcessed :=
       (case u_segmentsProcessed u of None \<Rightarrow> segmentsProcessed item | Some n \<Rightarrow> Some n),
     totalSegments :=
       (case u_totalSegments u of None \<Rightarrow> totalSegments item | Some n \<Rightarrow> Some n)\<rparr>"

text \<open>
  A history entry; the random \<^verbatim>\<open>id\<close>, the clock value \<^verbatim>\<open>timestamp\<close> and the
  configuration snapshot are left out.
\<close>

record HistoryItem =
  h_mediaType :: MediaType
  h_preview :: string
  h_result :: AnalysisResult
  h_content :: "string option"
  h_mimeType :: "string option"
  h_fileName :: "string option"

text \<open>The kinds of toast; \<open>Failure\<close> is the kind \<^verbatim>\<open>'error'\<close>.\<close>

datatype ToastType = Success | Failure | Info

text \<open>The React state of \<^verbatim>\<open>App\<close> that the analysis reads or writes.\<close>

record World =
  queue :: "QueueItem list"
  activeFileId :: "string option"
  shownResult :: "AnalysisResult option"
  history :: "HistoryItem list"
  toasts :: "(string \<times> ToastType) list"

subsection \<open>State setters\<close>

definition updateQueueItem :: "string \<Rightarrow> QueueItemUpdates \<Rightarrow> World \<Rightarrow> World" where
  "updateQueueItem i updates w =
     w\<lparr>queue := map (\<lambda>item. if qid item = i then spread item updates else item) (queue w)\<rparr>"

definition setResult :: "AnalysisResult \<Rightarrow> World \<Rightarrow> World" where
  "setResult r w = w\<lparr>shownResult := Some r\<rparr>"

definition addToast :: "string \<Rightarrow> ToastType \<Rightarrow> World \<Rightarrow> World" where
  "addToast message ty w = w\<lparr>toasts := toasts w @ [(message, ty)]\<rparr>"

definition saveToHistory ::
  "AnalysisResult \<Rightarrow> MediaType \<Rightarrow> string \<Rightarrow> string option \<Rightarrow> string option \<Rightarrow>
   string option \<Rightarrow> World \<Rightarrow> World" where
  "saveToHistory newResult ty previewText content mime fName w =
     (let safeContent =
            (case content of
               None \<Rightarrow> None
             | Some c \<Rightarrow> if c \<noteq> [] \<and> length c > 5 * 1024 * 1024 then None else Some c);
          newItem = \<lparr>h_mediaType = ty, h_preview = previewText, h_result = newResult,
                     h_content = safeContent, h_mimeType = mime, h_fileName = fName\<rparr>
      in w\<lparr>history := take 50 (newItem # history w)\<rparr>)"

text \<open>\<^verbatim>\<open>removeFile\<close>: the click handler that takes an item out of the queue.\<close>

definition removeFile :: "string \<Rightarrow> World \<Rightarrow> World" where
  "removeFile i w =
     (let filtered = filter (\<lambda>item. qid item \<noteq> i) (queue w)
      in if activeFileId w = Some i
         then w\<lparr>queue := filtered,
                activeFileId := (if length filtered > 0 then Some (qid (hd filtered)) else None)\<rparr>
         else w\<lparr>queue := filtered\<rparr>)"

subsection \<open>Sample schedule (lines 835-842)\<close>

text \<open>
  The duration a video element reports is a number of seconds or, for media of unknown
  length, \<^verbatim>\<open>Infinity\<close>.  \<open>before t d\<close> is the test \<^verbatim>\<open>t < duration\<close>.
\<close>

datatype Duration = Seconds real | Infinity

fun before :: "real \<Rightarrow> Duration \<Rightarrow> bool" where
  "before t (Seconds d) = (t < d)"
| "before t Infinity = True"

text \<open>
  The \<^verbatim>\<open>for\<close> loop of lines 838-840 as it is written: it pushes \<open>t\<close> and adds the
  interval while \<open>t < duration\<close>.  The value \<open>None\<close> stands for a loop that never ends.
\<close>

partial_function (option) timestamps_loop ::
  "real \<Rightarrow> Duration \<Rightarrow> real \<Rightarrow> real list \<Rightarrow> real list option" where
  "timestamps_loop t duration interval timestamps =
     (if before t duration
      then timestamps_loop (t + interval) duration interval (timestamps @ [t])
      else Some timestamps)"

text \<open>
  Lines 835-842: \<^verbatim>\<open>video.duration || 1\<close> replaces a zero duration by 1, the interval is
  clamped to at least 1, and an empty list of timestamps gets the timestamp 0.
\<close>

definition schedule :: "Duration \<Rightarrow> real \<Rightarrow> real list option" where
  "schedule reportedDuration configuredInterval =
     (let duration = (if reportedDuration = Seconds 0 then Seconds 1 else reportedDuration);
          interval = max 1 configuredInterval
      in case timestamps_loop 0 duration interval [] of
           None \<Rightarrow> None
         | Some timestamps \<Rightarrow>
             Some (if length timestamps = 0 then timestamps @ [0] else timestamps))"

text \<open>
  On a duration of finitely many seconds the loop ends, because of the clamp of the
  interval; \<open>schedule_loop\<close> and \<open>timestamps_of\<close> are the loop and the schedule for that
  case, as total functions (lemma \<open>schedule_finite\<close> below), with the constant
  \<^verbatim>\<open>interval = Math.max(1, advancedConfig.sampleInterval)\<close> written out in the recursive
  call.  The rest of the function is modelled for a finite duration.
\<close>

function schedule_loop :: "real \<Rightarrow> real \<Rightarrow> real \<Rightarrow> real list" where
  "schedule_loop t duration sampleInterval =
     (if t < duration
      then t # schedule_loop (t + max 1 sampleInterval) duration sampleInterval
      else [])"
  by pat_completeness auto
termination
proof (relation "measure (\<lambda>(t, duration, sampleInterval). nat \<lceil>duration - t\<rceil>)")
  show "wf (measure (\<lambda>(t, duration, sampleInterval). nat \<lceil>duration - t\<rceil>))"
    by simp
next
  fix t duration sampleInterval :: real
  assume lt: "t < duration"
  have "\<lceil>duration - (t + max 1 sampleInterval)\<rceil> \<le> \<lceil>duration - t - 1\<rceil>"
    by (rule ceiling_mono) (simp add: max_def)
  also have "\<dots> = \<lceil>duration - t\<rceil> - 1"
    by simp
  finally have less: "\<lceil>duration - (t + max 1 sampleInterval)\<rceil> < \<lceil>duration - t\<rceil>"
    by simp
  have "0 < \<lceil>duration - t\<rceil>"
    using lt by simp
  with less show "((t + max 1 sampleInterval, duration, sampleInterval),
      (t, duration, sampleInterval))
    \<in> measure (\<lambda>(t, duration, sampleInterval). nat \<lceil>duration - t\<rceil>)"
    by simp
qed

declare schedule_loop.simps [simp del]

text \<open>
  \<^verbatim>\<open>video.duration || 1\<close> replaces a zero duration by 1; an empty schedule gets the
  timestamp 0.
\<close>

definition timestamps_of :: "real \<Rightarrow> real \<Rightarrow> real list" where
  "timestamps_of videoDuration sampleInterval =
     (let duration = (if videoDuration = 0 then 1 else videoDuration);
          timestamps = schedule_loop 0 duration sampleInterval
      in if length timestamps = 0 then timestamps @ [0] else timestamps)"

subsection \<open>Evidence ranking (lines 901-903 and 927-929)\<close>

text \<open>
  A JavaScript \<^verbatim>\<open>Map\<close> as the list of its entries in insertion order: \<^verbatim>\<open>set\<close> replaces
  the value of a key that is present, where it stands, and appends a new key.
\<close>

fun Map_set :: "('k \<times> 'v) list \<Rightarrow> 'k \<Rightarrow> 'v \<Rightarrow> ('k \<times> 'v) list" where
  "Map_set [] k v = [(k, v)]"
| "Map_set ((k', v') # m) k v =
     (if k' = k then (k', v) # m else (k', v') # Map_set m k v)"

definition new_Map :: "('k \<times> 'v) list \<Rightarrow> ('k \<times> 'v) list" where
  "new_Map entries = foldl (\<lambda>m (k, v). Map_set m k v) [] entries"

definition Map_values :: "('k \<times> 'v) list \<Rightarrow> 'v list" where
  "Map_values m = map snd m"

text \<open>
  \<^verbatim>\<open>Array.prototype.sort\<close> with a comparator: the language guarantees a stable sort;
  here it is an insertion sort that puts an element before the first one it does not
  compare greater than.
\<close>

fun insert_sorted :: "('a \<Rightarrow> 'a \<Rightarrow> real) \<Rightarrow> 'a \<Rightarrow> 'a list \<Rightarrow> 'a list" where
  "insert_sorted cmp x [] = [x]"
| "insert_sorted cmp x (y # ys) =
     (if cmp x y \<le> 0 then x # y # ys else y # insert_sorted cmp x ys)"

definition Array_sort :: "('a \<Rightarrow> 'a \<Rightarrow> real) \<Rightarrow> 'a list \<Rightarrow> 'a list" where
  "Array_sort cmp xs = foldr (insert_sorted cmp) xs []"

text \<open>
  The three stages of the chained expression: the \<^verbatim>\<open>Map\<close> keyed by feature name and its
  values, the sort by descending impact score, and the slice of the first six.
\<close>

definition evidencePool :: "KeyFeature list \<Rightarrow> KeyFeature list" where
  "evidencePool allKF = Map_values (new_Map (map (\<lambda>f. (feature f, f)) allKF))"

definition rankedFeatures :: "KeyFeature list \<Rightarrow> KeyFeature list" where
  "rankedFeatures allKF = Array_sort (\<lambda>a b. impactScore b - impactScore a) (evidencePool allKF)"

definition uniqueFeatures :: "KeyFeature list \<Rightarrow> KeyFeature list" where
  "uniqueFeatures allKF = take 6 (rankedFeatures allKF)"

subsection \<open>Composite results (lines 896-911 and 923-937)\<close>

definition progressiveLabel :: "real \<Rightarrow> Label" where
  "progressiveLabel currentAvgProb = (if currentAvgProb > 50 then Likely_AI else Likely_Human)"

definition finalLabel :: "real \<Rightarrow> Label" where
  "finalLabel finalProb =
     (if finalProb > 50 then Likely_AI
      else (if finalProb > 30 then Mixed_Uncertain else Likely_Human))"

definition progressiveReasoning :: "nat \<Rightarrow> nat \<Rightarrow> string \<Rightarrow> string" where
  "progressiveReasoning count totalSegs frameReasoning =
     ''Progressive analysis in progress ('' @ string_of_nat count @ ''/'' @
     string_of_nat totalSegs @ '' segments). Latest frame finding: '' @
     take 100 frameReasoning @ ''...''"

definition finalReasoning :: "nat \<Rightarrow> real \<Rightarrow> string" where
  "finalReasoning totalSegs finalProb =
     ''Comprehensive progressive analysis of '' @ string_of_nat totalSegs @
     '' video segments completed. The aggregate probability suggests '' @
     (if finalProb > 50 then ''artificial generation'' else ''human origin'') @
     ''. Key artifacts detected across frames have been summarized.''"

subsection \<open>One call of the analysis\<close>

text \<open>
  The local variables of one call, with four logs that record what the call did:
  \<open>seeks\<close> the times handed to \<^verbatim>\<open>captureFrame\<close>, \<open>classified\<close> the frames sent to
  \<^verbatim>\<open>detectAIContent\<close>, \<open>folded\<close> the frame results added to the aggregates and
  \<open>published\<close> the results passed to \<^verbatim>\<open>setResult\<close>.  \<open>videoSrc\<close> is the \<^verbatim>\<open>src\<close>
  attribute of the hidden video element.
\<close>

record Session =
  videoSrc :: "string option"
  aggregatedProb :: real
  aggregatedConf :: real
  allKeyFeatures :: "KeyFeature list"
  lastResult :: "AnalysisResult option"
  seeks :: "real list"
  classified :: "string list"
  folded :: "AnalysisResult list"
  published :: "AnalysisResult list"

text \<open>
  What the call gets from outside: the duration the video element reports (finitely
  many seconds, see \<open>schedule\<close> for the other case), the configured interval, the data a capture at a time resolves to (empty when the canvas
  gives nothing), and the classifier's answer to the call for segment \<open>i\<close>, \<open>Inl\<close> the
  message of the error it throws.
\<close>

record Env =
  videoDuration :: real
  sampleInterval :: real
  captureFrame :: "real \<Rightarrow> string"
  detectAIContent :: "nat \<Rightarrow> string \<Rightarrow> string + AnalysisResult"

text \<open>
  The function suspends at every \<^verbatim>\<open>await\<close>; handlers of other events run meanwhile
  and may change the shared state.  A hook gives that change for each suspension.
\<close>

datatype AwaitPoint = AwaitMetadata | AwaitCapture nat | AwaitClassify nat

type_synonym Hooks = "AwaitPoint \<Rightarrow> World \<Rightarrow> World"

definition quiet :: Hooks where
  "quiet p w = w"

text \<open>The log entries.\<close>

definition seek :: "real \<Rightarrow> Session \<Rightarrow> Session" where
  "seek time S = S\<lparr>seeks := seeks S @ [time]\<rparr>"

definition dispatch :: "string \<Rightarrow> Session \<Rightarrow> Session" where
  "dispatch frame S = S\<lparr>classified := classified S @ [frame]\<rparr>"

definition publish :: "AnalysisResult \<Rightarrow> Session \<Rightarrow> Session" where
  "publish r S = S\<lparr>published := published S @ [r]\<rparr>"

text \<open>Lines 890-894: the running aggregates.\<close>

definition foldFrame :: "AnalysisResult \<Rightarrow> Session \<Rightarrow> Session" where
  "foldFrame frameResult S = S\<lparr>
     aggregatedProb := aggregatedProb S + probabilityAI frameResult,
     aggregatedConf := aggregatedConf S + confidence frameResult,
     allKeyFeatures := allKeyFeatures S @ keyFeatures frameResult,
     lastResult := Some frameResult,
     folded := folded S @ [frameResult]\<rparr>"

text \<open>Lines 896-911: the intermediate result, from the aggregates after the fold.\<close>

definition progressiveResult :: "Session \<Rightarrow> AnalysisResult \<Rightarrow> nat \<Rightarrow> nat \<Rightarrow> AnalysisResult" where
  "progressiveResult S frameResult count totalSegs =
     (let currentAvgProb = Math_round (aggregatedProb S / of_nat count);
          currentAvgConf = Math_round (aggregatedConf S / of_nat count)
      in \<lparr>probabilityAI = currentAvgProb,
          label = progressiveLabel currentAvgProb,
          confidence = currentAvgConf,
          reasoning = progressiveReasoning count totalSegs (reasoning frameResult),
          keyFeatures = uniqueFeatures (allKeyFeatures S)\<rparr>)"

text \<open>Lines 923-937: the final result.\<close>

definition finalResult :: "Session \<Rightarrow> nat \<Rightarrow> AnalysisResult" where
  "finalResult S totalSegs =
     (let count = totalSegs;
          finalProb = Math_round (aggregatedProb S / of_nat count);
          finalConf = Math_round (aggregatedConf S / of_nat count)
      in \<lparr>probabilityAI = finalProb,
          label = finalLabel finalProb,
          confidence = finalConf,
          reasoning = finalReasoning totalSegs finalProb,
          keyFeatures = uniqueFeatures (allKeyFeatures S)\<rparr>)"

text \<open>Lines 913-918: the intermediate result goes to the display and to the queue item.\<close>

definition showProgress :: "string \<Rightarrow> nat \<Rightarrow> AnalysisResult \<Rightarrow> World \<Rightarrow> World" where
  "showProgress itemId count r w =
     updateQueueItem itemId (no_updates\<lparr>u_segmentsProcessed := Some count, u_result := Some r\<rparr>)
       (setResult r w)"

text \<open>
  Lines 876-919: the loop over the timestamps from index \<open>i\<close> on.  The first component
  of the result is the message of an exception that left the loop.
\<close>

fun frames_loop ::
  "Hooks \<Rightarrow> Env \<Rightarrow> string \<Rightarrow> nat \<Rightarrow> real list \<Rightarrow> nat \<Rightarrow> Session \<Rightarrow> World \<Rightarrow>
   string option \<times> Session \<times> World" where
  "frames_loop H E itemId totalSegs [] i S w = (None, S, w)"
| "frames_loop H E itemId totalSegs (time # rest) i S w =
     (if captureFrame E time = []
      then frames_loop H E itemId totalSegs rest (Suc i) (seek time S) (H (AwaitCapture i) w)
      else
        (case detectAIContent E i (captureFrame E time) of
           Inl message \<Rightarrow>
             (Some message, dispatch (captureFrame E time) (seek time S),
              H (AwaitClassify i) (H (AwaitCapture i) w))
         | Inr frameResult \<Rightarrow>
             frames_loop H E itemId totalSegs rest (Suc i)
               (publish
                  (progressiveResult
                     (foldFrame frameResult (dispatch (captureFrame E time) (seek time S)))
                     frameResult (i + 1) totalSegs)
                  (foldFrame frameResult (dispatch (captureFrame E time) (seek time S))))
               (showProgress itemId (i + 1)
                  (progressiveResult
                     (foldFrame frameResult (dispatch (captureFrame E time) (seek time S)))
                     frameResult (i + 1) totalSegs)
                  (H (AwaitClassify i) (H (AwaitCapture i) w)))))"

text \<open>Lines 921-952: finalisation, or the \<^verbatim>\<open>catch\<close> clause when the loop threw.\<close>

definition showError :: "string \<Rightarrow> string \<Rightarrow> World \<Rightarrow> World" where
  "showError itemId errMsg w =
     addToast errMsg Failure
       (updateQueueItem itemId (no_updates\<lparr>u_status := Some Error, u_error := Some errMsg\<rparr>) w)"

definition showFinal :: "QueueItem \<Rightarrow> nat \<Rightarrow> AnalysisResult \<Rightarrow> World \<Rightarrow> World" where
  "showFinal item totalSegs r w =
     addToast ''Progressive analysis complete'' Success
       (saveToHistory r VIDEO (fileName item) None (Some (mimeType item)) (Some (fileName item))
          (updateQueueItem (qid item)
             (no_updates\<lparr>u_status := Some Done, u_result := Some r,
                u_segmentsProcessed := Some totalSegs\<rparr>)
             (setResult r w)))"

definition finish ::
  "QueueItem \<Rightarrow> nat \<Rightarrow> string option \<times> Session \<times> World \<Rightarrow> Session \<times> World" where
  "finish item totalSegs out =
     (case out of
        (Some message, S, w) \<Rightarrow>
          (S, showError (qid item)
                (if message = [] then ''Progressive analysis failed'' else message) w)
      | (None, S, w) \<Rightarrow>
          (case lastResult S of
             None \<Rightarrow> (S, w)
           | Some lr \<Rightarrow>
               (publish (finalResult S totalSegs) S,
                showFinal item totalSegs (finalResult S totalSegs) w)))"

definition newSession :: "string \<Rightarrow> Session" where
  "newSession url = \<lparr>videoSrc = Some url, aggregatedProb = 0, aggregatedConf = 0,
     allKeyFeatures = [], lastResult = None, seeks = [], classified = [], folded = [],
     published = []\<rparr>"

text \<open>
  The whole function.  It returns no session when \<^verbatim>\<open>item.previewUrl\<close> is falsy (absent
  or empty); otherwise the session as the \<^verbatim>\<open>finally\<close> clause leaves it.
\<close>

definition startAnalysis :: "string \<Rightarrow> nat \<Rightarrow> World \<Rightarrow> World" where
  "startAnalysis itemId totalSegs w =
     updateQueueItem itemId
       (no_updates\<lparr>u_totalSegments := Some totalSegs, u_segmentsProcessed := Some 0,
          u_status := Some Analyzing\<rparr>) w"

definition handleProgressiveVideoAnalysis ::
  "Hooks \<Rightarrow> Env \<Rightarrow> QueueItem \<Rightarrow> World \<Rightarrow> Session option \<times> World" where
  "handleProgressiveVideoAnalysis H E item w =
     (case previewUrl item of
        None \<Rightarrow> (None, w)
      | Some url \<Rightarrow>
          if url = [] then (None, w)
          else
            (let timestamps = timestamps_of (videoDuration E) (sampleInterval E);
                 totalSegs = length timestamps;
                 (S, w') = finish item totalSegs
                             (frames_loop H E (qid item) totalSegs timestamps 0 (newSession url)
                                (startAnalysis (qid item) totalSegs (H AwaitMetadata w)))
             in (Some (S\<lparr>videoSrc := None\<rparr>), w')))"

subsection \<open>The evidence pool as the specification words it\<close>

text \<open>
  The specification describes the evidence pool as a mapping from feature name to the
  latest entry written under that name, listed in the order in which the names were
  first seen, and the key features as its six highest entries by impact score, entries
  of equal score in pool order.  \<open>sort_key\<close> is the library's stable sort.
\<close>

definition firstSeen :: "'a list \<Rightarrow> 'a list" where
  "firstSeen xs = rev (remdups (rev xs))"

definition lastWriter :: "KeyFeature list \<Rightarrow> string \<Rightarrow> KeyFeature" where
  "lastWriter allKF name = last (filter (\<lambda>f. feature f = name) allKF)"

definition spec_evidencePool :: "KeyFeature list \<Rightarrow> KeyFeature list" where
  "spec_evidencePool allKF = map (lastWriter allKF) (firstSeen (map feature allKF))"

definition spec_keyFeatures :: "KeyFeature list \<Rightarrow> KeyFeature list" where
  "spec_keyFeatures allKF = take 6 (sort_key (\<lambda>f. - impactScore f) (spec_evidencePool allKF))"

subsection \<open>Invariants of a session\<close>

text \<open>
  The aggregates are the sums over the folded frame results, and one result has been
  published per fold.
\<close>

definition consistent :: "Session \<Rightarrow> bool" where
  "consistent S \<longleftrightarrow>
     aggregatedProb S = sum_list (map probabilityAI (folded S)) \<and>
     aggregatedConf S = sum_list (map confidence (folded S)) \<and>
     allKeyFeatures S = concat (map keyFeatures (folded S)) \<and>
     lastResult S = (if folded S = [] then None else Some (last (folded S))) \<and>
     length (published S) = length (folded S)"

text \<open>
  The result published after the \<open>k+1\<close>-th fold ranks the features of the first \<open>k+1\<close>
  folded frames.
\<close>

definition features_ranked :: "Session \<Rightarrow> bool" where
  "features_ranked S \<longleftrightarrow>
     (\<forall>k < length (published S).
        keyFeatures (published S ! k) =
          uniqueFeatures (concat (map keyFeatures (take (Suc k) (folded S)))))"

text \<open>Scores within 0..100, for a result and for the aggregates after \<open>k\<close> segments.\<close>

definition in_range :: "AnalysisResult \<Rightarrow> bool" where
  "in_range r \<longleftrightarrow> 0 \<le> probabilityAI r \<and> probabilityAI r \<le> 100 \<and>
                  0 \<le> confidence r \<and> confidence r \<le> 100"

definition bounded :: "nat \<Rightarrow> Session \<Rightarrow> bool" where
  "bounded k S \<longleftrightarrow>
     0 \<le> aggregatedProb S \<and> aggregatedProb S \<le> 100 * of_nat k \<and>
     0 \<le> aggregatedConf S \<and> aggregatedConf S \<le> 100 * of_nat k \<and>
     (\<forall>r \<in> set (published S). in_range r)"

subsection \<open>Example inputs\<close>

definition clip :: QueueItem where
  "clip = \<lparr>qid = ''v1'', fileName = ''clip.mp4'', status = Ready, progress = 100,
     previewUrl = Some ''blob:clip'', base64 = None, mimeType = ''video/mp4'',
     qresult = None, qerror = None, segmentsProcessed = None, totalSegments = None\<rparr>"

definition clip_without_preview :: QueueItem where
  "clip_without_preview = clip\<lparr>previewUrl := None\<rparr>"

definition app0 :: World where
  "app0 = \<lparr>queue = [clip], activeFileId = Some ''v1'', shownResult = None, history = [],
     toasts = []\<rparr>"

definition frame :: "real \<Rightarrow> real \<Rightarrow> KeyFeature list \<Rightarrow> AnalysisResult" where
  "frame p c kfs = \<lparr>probabilityAI = p, label = (if p > 50 then Likely_AI else Likely_Human),
     confidence = c, reasoning = ''frame finding'', keyFeatures = kfs\<rparr>"

text \<open>A 12 second video sampled every 5 seconds; every frame is captured and classified.\<close>

definition env_all_ok :: Env where
  "env_all_ok = \<lparr>videoDuration = 12, sampleInterval = 5, captureFrame = (\<lambda>t. ''jpeg''),
     detectAIContent = (\<lambda>i f. if i = 0 then Inr (frame 80 90 [])
                               else if i = 1 then Inr (frame 70 80 []) else Inr (frame 60 70 []))\<rparr>"

text \<open>The same video; the classifier throws for the frame at 5 seconds.\<close>

definition env_fail_at_5 :: Env where
  "env_fail_at_5 = \<lparr>videoDuration = 12, sampleInterval = 5, captureFrame = (\<lambda>t. ''jpeg''),
     detectAIContent = (\<lambda>i f. if i = 0 then Inr (frame 80 90 [])
                               else if i = 1 then Inl ''quota exceeded'' else Inr (frame 60 70 []))\<rparr>"

text \<open>A 10 second video; the capture at 0 seconds yields no data, the frame at 5 does.\<close>

definition env_skip_at_0 :: Env where
  "env_skip_at_0 = \<lparr>videoDuration = 10, sampleInterval = 5,
     captureFrame = (\<lambda>t. if t = 0 then [] else ''jpeg''),
     detectAIContent = (\<lambda>i f. Inr (frame 80 90 []))\<rparr>"

text \<open>The 12 second video; the capture at 5 seconds yields no data.\<close>

definition env_skip_at_5 :: Env where
  "env_skip_at_5 = \<lparr>videoDuration = 12, sampleInterval = 5,
     captureFrame = (\<lambda>t. if t = 5 then [] else ''jpeg''),
     detectAIContent = (\<lambda>i f. if i = 0 then Inr (frame 80 90 []) else Inr (frame 60 70 []))\<rparr>"

text \<open>The 12 second video; no capture yields data.\<close>

definition env_no_frames :: Env where
  "env_no_frames = \<lparr>videoDuration = 12, sampleInterval = 5, captureFrame = (\<lambda>t. []),
     detectAIContent = (\<lambda>i f. Inr (frame 80 90 []))\<rparr>"

text \<open>A 25 second video sampled every 5 seconds: five segments, all captured and classified.\<close>

definition env_five :: Env where
  "env_five = \<lparr>videoDuration = 25, sampleInterval = 5, captureFrame = (\<lambda>t. ''jpeg''),
     detectAIContent = (\<lambda>i f. Inr (frame 80 90 []))\<rparr>"

text \<open>The user removes the item \<open>v1\<close> while the capture of segment \<open>k\<close> is pending.\<close>

definition remove_during_capture :: "nat \<Rightarrow> Hooks" where
  "remove_during_capture k p w = (if p = AwaitCapture k then removeFile ''v1'' w else w)"

definition halo :: "real \<Rightarrow> KeyFeature" where
  "halo score = \<lparr>feature = ''edge halo'', impactScore = score\<rparr>"

definition blur :: "real \<Rightarrow> KeyFeature" where
  "blur score = \<lparr>feature = ''texture blur'', impactScore = score\<rparr>"

text \<open>
  A 10 second video: two frames, both reporting the feature "texture blur", with impact
  40 and then 70.
\<close>

definition env_features :: Env where
  "env_features = \<lparr>videoDuration = 10, sampleInterval = 5, captureFrame = (\<lambda>t. ''jpeg''),
     detectAIContent = (\<lambda>i f. if i = 0 then Inr (frame 80 90 [blur 40, halo 55])
                               else Inr (frame 60 70 [blur 70]))\<rparr>"

section \<open>Properties\<close>

subsection \<open>The sample schedule\<close>


lemma schedule_loop_empty: "schedule_loop t d si = [] \<longleftrightarrow> \<not> t < d"
  by (subst schedule_loop.simps) simp

lemma schedule_loop_bounds:
  "x \<in> set (schedule_loop t d si) \<Longrightarrow> t \<le> x \<and> x < d"
proof (induction t d si rule: schedule_loop.induct)
  case (1 t d si)
  show ?case
  proof (cases "t < d")
    case True
    from "1.prems" have "x = t \<or> x \<in> set (schedule_loop (t + max 1 si) d si)"
      by (subst (asm) schedule_loop.simps) (simp add: True)
    then show ?thesis
    proof
      assume "x = t" with True show ?thesis by simp
    next
      assume "x \<in> set (schedule_loop (t + max 1 si) d si)"
      from "1.IH"[OF True this] show ?thesis by (simp add: max_def split: if_splits)
    qed
  next
    case False
    with "1.prems" show ?thesis
      by (subst (asm) schedule_loop.simps) simp
  qed
qed

lemma schedule_loop_increasing: "sorted_wrt (<) (schedule_loop t d si)"
proof (induction t d si rule: schedule_loop.induct)
  case (1 t d si)
  show ?case
  proof (cases "t < d")
    case True
    have "\<forall>x\<in>set (schedule_loop (t + max 1 si) d si). t < x"
    proof
      fix x assume "x \<in> set (schedule_loop (t + max 1 si) d si)"
      then have "t + max 1 si \<le> x" using schedule_loop_bounds by blast
      then show "t < x" by (simp add: max_def split: if_splits)
    qed
    with "1.IH"[OF True] True show ?thesis
      by (subst schedule_loop.simps) simp
  next
    case False
    then show ?thesis by (subst schedule_loop.simps) simp
  qed
qed

lemma schedule_loop_nth:
  "k < length (schedule_loop t d si) \<Longrightarrow> schedule_loop t d si ! k = t + of_nat k * max 1 si"
proof (induction t d si arbitrary: k rule: schedule_loop.induct)
  case (1 t d si)
  show ?case
  proof (cases "t < d")
    case True
    have unfold: "schedule_loop t d si = t # schedule_loop (t + max 1 si) d si"
      by (subst schedule_loop.simps) (simp add: True)
    show ?thesis
    proof (cases k)
      case 0
      then show ?thesis by (simp add: unfold)
    next
      case (Suc j)
      with "1.prems" have "j < length (schedule_loop (t + max 1 si) d si)"
        by (simp add: unfold)
      from "1.IH"[OF True this] Suc show ?thesis
        by (simp add: unfold algebra_simps)
    qed
  next
    case False
    with "1.prems" show ?thesis
      by (subst (asm) schedule_loop.simps) simp
  qed
qed

lemma schedule_loop_single:
  "t < d \<Longrightarrow> d \<le> t + max 1 si \<Longrightarrow> schedule_loop t d si = [t]"
  by (subst schedule_loop.simps, subst schedule_loop.simps) simp

lemma schedule_loop_hd: "t < d \<Longrightarrow> hd (schedule_loop t d si) = t"
  by (subst schedule_loop.simps) simp

lemma timestamps_of_nonempty: "timestamps_of d si \<noteq> []"
  by (simp add: timestamps_of_def Let_def)

text \<open>
  On a finite duration the loop as written returns what \<open>schedule_loop\<close> computes.
\<close>

lemma timestamps_loop_Seconds:
  "timestamps_loop t (Seconds d) (max 1 si) acc = Some (acc @ schedule_loop t d si)"
proof (induction t d si arbitrary: acc rule: schedule_loop.induct)
  case (1 t d si)
  show ?case
  proof (cases "t < d")
    case True
    have "timestamps_loop t (Seconds d) (max 1 si) acc =
        timestamps_loop (t + max 1 si) (Seconds d) (max 1 si) (acc @ [t])"
      by (subst timestamps_loop.simps) (simp add: True)
    also have "\<dots> = Some ((acc @ [t]) @ schedule_loop (t + max 1 si) d si)"
      by (rule "1.IH"[OF True])
    also have "\<dots> = Some (acc @ schedule_loop t d si)"
      by (subst (2) schedule_loop.simps) (simp add: True)
    finally show ?thesis .
  next
    case False
    then show ?thesis
      by (subst timestamps_loop.simps, subst schedule_loop.simps) simp
  qed
qed

lemma schedule_finite: "schedule (Seconds d) si = Some (timestamps_of d si)"
  by (simp add: schedule_def timestamps_of_def Let_def timestamps_loop_Seconds)

text \<open>
  For every finite reported duration and every configured interval, the schedule is
  non-empty, starts at 0, is strictly increasing, stays strictly below a positive
  duration, and is exactly \<open>[0]\<close> when the duration is at most 0 or at most the step.
  The step is the interval clamped to at least 1, so it is never 0 or negative: the
  \<open>k\<close>-th timestamp is \<open>k\<close> times the clamped interval.
\<close>

theorem schedule_properties:
  "timestamps_of d si \<noteq> [] \<and>
   hd (timestamps_of d si) = 0 \<and>
   sorted_wrt (<) (timestamps_of d si) \<and>
   (0 < d \<longrightarrow> (\<forall>t \<in> set (timestamps_of d si). t < d)) \<and>
   (d \<le> 0 \<or> d \<le> max 1 si \<longrightarrow> timestamps_of d si = [0]) \<and>
   (\<forall>k < length (timestamps_of d si). timestamps_of d si ! k = of_nat k * max 1 si) \<and>
   0 < max 1 si"
proof -
  define duration where "duration = (if d = 0 then 1 else d)"
  have ts: "timestamps_of d si =
      (if schedule_loop 0 duration si = [] then [0] else schedule_loop 0 duration si)"
    by (simp add: timestamps_of_def duration_def Let_def)
  have nonempty: "timestamps_of d si \<noteq> []"
    by (simp add: ts)
  have head: "hd (timestamps_of d si) = 0"
    using schedule_loop_hd[of 0 duration si] by (simp add: ts schedule_loop_empty)
  have incr: "sorted_wrt (<) (timestamps_of d si)"
    by (simp add: ts schedule_loop_increasing)
  have below: "0 < d \<longrightarrow> (\<forall>t \<in> set (timestamps_of d si). t < d)"
  proof
    assume pos: "0 < d"
    then have "duration = d" by (simp add: duration_def)
    with pos have "timestamps_of d si = schedule_loop 0 d si"
      by (simp add: ts schedule_loop_empty)
    then show "\<forall>t \<in> set (timestamps_of d si). t < d"
      using schedule_loop_bounds by auto
  qed
  have single: "d \<le> 0 \<or> d \<le> max 1 si \<longrightarrow> timestamps_of d si = [0]"
  proof
    assume a: "d \<le> 0 \<or> d \<le> max 1 si"
    show "timestamps_of d si = [0]"
    proof (cases "0 < duration")
      case True
      have "duration \<le> max 1 si"
        using a True by (auto simp: duration_def max_def split: if_splits)
      then have "schedule_loop 0 duration si = [0]"
        using schedule_loop_single[of 0 duration si] True by simp
      then show ?thesis by (simp add: ts)
    next
      case False
      then show ?thesis by (simp add: ts schedule_loop_empty)
    qed
  qed
  have nth: "\<forall>k < length (timestamps_of d si). timestamps_of d si ! k = of_nat k * max 1 si"
  proof (cases "schedule_loop 0 duration si = []")
    case True
    then show ?thesis by (simp add: ts)
  next
    case False
    then show ?thesis using schedule_loop_nth[of _ 0 duration si] by (simp add: ts)
  qed
  have "0 < max 1 si" by (simp add: max_def)
  with nonempty head incr below single nth show ?thesis by blast
qed

theorem schedule_properties_witness:
  "(0::real) < 12 \<and> timestamps_of 12 5 = [0, 5, 10] \<and>
   (3::real) \<le> max 1 5 \<and> timestamps_of 3 5 = [0] \<and>
   timestamps_of 0 5 = [0] \<and> timestamps_of 3 (- 2) = [0, 1, 2]"
  using schedule_properties[of 12 5] schedule_properties[of 3 5]
  by (simp add: timestamps_of_def schedule_loop.simps)

lemma timestamps_loop_returns_finite:
  assumes returns: "timestamps_loop t duration interval acc = Some ts"
  shows "duration \<noteq> Infinity"
proof (rule timestamps_loop.raw_induct[where P = "\<lambda>t d iv acc y. d \<noteq> Infinity", OF _ returns])
  fix loop :: "real \<Rightarrow> Duration \<Rightarrow> real \<Rightarrow> real list \<Rightarrow> real list option"
  fix t' d iv acc' y
  assume IH: "\<And>t d iv acc y. loop t d iv acc = Some y \<Longrightarrow> d \<noteq> Infinity"
    and step: "(if before t' d then loop (t' + iv) d iv (acc' @ [t']) else Some acc') = Some y"
  show "d \<noteq> Infinity"
  proof
    assume inf: "d = Infinity"
    with step have "loop (t' + iv) d iv (acc' @ [t']) = Some y"
      by simp
    from IH[OF this] inf show False by simp
  qed
qed

text \<open>
  Claim C6 (the code departs from it).  The claim promises, for every duration of at
  least 0, a schedule that is non-empty, starts at 0, is strictly increasing and stays
  below the duration.  A video element reports the duration \<^verbatim>\<open>Infinity\<close> for media of
  unknown length.  Then \<open>t < duration\<close> holds at every step: whatever the interval, the
  loop never ends and no schedule is produced, from any time and any list of timestamps
  it has reached.  On 12 seconds with interval 5 the same code gives \<open>[0, 5, 10]\<close>;
  on every finite duration it gives the schedule the claim describes (lemmas
  \<open>schedule_finite\<close> and \<open>schedule_properties\<close>).
\<close>

theorem infinite_duration_no_schedule:
  "schedule Infinity configuredInterval = None \<and>
   timestamps_loop t Infinity interval timestamps = None \<and>
   schedule (Seconds 12) 5 = Some [0, 5, 10]"
proof -
  have loop: "timestamps_loop t' Infinity iv acc = None" for t' iv acc
    using timestamps_loop_returns_finite[of t' Infinity iv acc]
    by (cases "timestamps_loop t' Infinity iv acc") auto
  have "schedule (Seconds 12) 5 = Some [0, 5, 10]"
    by (simp add: schedule_finite timestamps_of_def schedule_loop.simps)
  with loop show ?thesis
    by (simp add: schedule_def)
qed

subsection \<open>Labels\<close>

text \<open>
  Claim C5.  The label of an intermediate result is "Likely AI" exactly when its
  probability is above 50 and "Likely Human" otherwise, never "Mixed/Uncertain"; the
  label of the final result is "Likely AI" above 50, "Mixed/Uncertain" above 30 up to
  50, and "Likely Human" up to 30.  At 30, 31, 50 and 51 the final label is "Likely
  Human", "Mixed/Uncertain", "Mixed/Uncertain" and "Likely AI".
\<close>

theorem label_rules:
  "(label (progressiveResult S fr c n) = Likely_AI) = (probabilityAI (progressiveResult S fr c n) > 50) \<and>
   (label (progressiveResult S fr c n) = Likely_Human) = (probabilityAI (progressiveResult S fr c n) \<le> 50) \<and>
   label (progressiveResult S fr c n) \<noteq> Mixed_Uncertain \<and>
   (label (finalResult S n) = Likely_AI) = (probabilityAI (finalResult S n) > 50) \<and>
   (label (finalResult S n) = Mixed_Uncertain) =
     (30 < probabilityAI (finalResult S n) \<and> probabilityAI (finalResult S n) \<le> 50) \<and>
   (label (finalResult S n) = Likely_Human) = (probabilityAI (finalResult S n) \<le> 30) \<and>
   finalLabel 30 = Likely_Human \<and> finalLabel 31 = Mixed_Uncertain \<and>
   finalLabel 50 = Mixed_Uncertain \<and> finalLabel 51 = Likely_AI \<and>
   progressiveLabel 30 = Likely_Human \<and> progressiveLabel 31 = Likely_Human \<and>
   progressiveLabel 50 = Likely_Human \<and> progressiveLabel 51 = Likely_AI"
  by (simp add: progressiveResult_def finalResult_def progressiveLabel_def finalLabel_def Let_def)

subsection \<open>An item without a preview\<close>

text \<open>
  Claim C10.  When the item's \<open>previewUrl\<close> is absent the function returns at once:
  it creates no session (so no capture and no classification call is made) and gives
  back the application state it was given, whatever other handlers would do at the
  suspension points it never reaches.
\<close>

theorem no_preview_no_op:
  "previewUrl item = None \<Longrightarrow> handleProgressiveVideoAnalysis H E item w = (None, w)"
  by (simp add: handleProgressiveVideoAnalysis_def)

theorem no_preview_no_op_witness:
  "previewUrl clip_without_preview = None \<and>
   handleProgressiveVideoAnalysis (remove_during_capture 0) env_all_ok clip_without_preview app0
     = (None, app0)"
  using no_preview_no_op[of clip_without_preview "remove_during_capture 0" env_all_ok app0]
  by (simp add: clip_without_preview_def)

subsection \<open>The frame loop\<close>

lemma frames_loop_session_independent:
  "fst (frames_loop H E i n ts k S w) = fst (frames_loop H' E i' n ts k S w') \<and>
   fst (snd (frames_loop H E i n ts k S w)) = fst (snd (frames_loop H' E i' n ts k S w'))"
  by (induction ts arbitrary: k S w w') (auto split: sum.splits)

lemma frames_loop_append:
  "frames_loop H E i n (xs @ ys) k S w =
     (case frames_loop H E i n xs k S w of
        (None, S', w') \<Rightarrow> frames_loop H E i n ys (k + length xs) S' w'
      | (Some m, S', w') \<Rightarrow> (Some m, S', w'))"
  by (induction xs arbitrary: k S w) (auto split: sum.splits prod.splits option.splits)

lemma consistent_seek [simp]: "consistent (seek t S) = consistent S"
  by (simp add: consistent_def seek_def)

lemma consistent_dispatch [simp]: "consistent (dispatch f S) = consistent S"
  by (simp add: consistent_def dispatch_def)

lemma consistent_fold:
  "consistent S \<Longrightarrow> consistent (publish r (foldFrame fr S))"
  by (simp add: consistent_def publish_def foldFrame_def)

lemma frames_loop_consistent:
  "consistent S \<Longrightarrow> consistent (fst (snd (frames_loop H E i n ts k S w)))"
  by (induction ts arbitrary: k S w) (auto split: sum.splits simp: consistent_fold)

lemma frames_loop_no_throw:
  "\<forall>j < length ts. captureFrame E (ts ! j) = [] \<or> \<not> isl (detectAIContent E (k + j) (captureFrame E (ts ! j)))
   \<Longrightarrow> fst (frames_loop H E i n ts k S w) = None"
proof (induction ts arbitrary: k S w)
  case Nil
  then show ?case by simp
next
  case (Cons t ts)
  from Cons.prems have hd: "captureFrame E t = [] \<or> \<not> isl (detectAIContent E k (captureFrame E t))"
    by (metis add.right_neutral length_Cons nth_Cons_0 zero_less_Suc)
  have tl: "\<forall>j < length ts. captureFrame E (ts ! j) = [] \<or> \<not> isl (detectAIContent E (Suc k + j) (captureFrame E (ts ! j)))"
  proof (intro allI impI)
    fix j assume "j < length ts"
    then have "Suc j < length (t # ts)" by simp
    from Cons.prems[rule_format, OF this] show "captureFrame E (ts ! j) = [] \<or> \<not> isl (detectAIContent E (Suc k + j) (captureFrame E (ts ! j)))"
      by simp
  qed
  from hd Cons.IH[OF tl] show ?case
    by (auto split: sum.splits)
qed

lemma frames_loop_all_empty:
  "\<forall>t \<in> set ts. captureFrame E t = [] \<Longrightarrow>
   frames_loop quiet E i n ts k S w = (None, S\<lparr>seeks := seeks S @ ts\<rparr>, w)"
  by (induction ts arbitrary: k S) (auto simp: seek_def quiet_def)

subsection \<open>The evidence pool\<close>

lemma Map_set_keys:
  "map fst (Map_set m k v) = (if k \<in> fst ` set m then map fst m else map fst m @ [k])"
  by (induction m) force+

lemma Map_set_lookup: "map_of (Map_set m k v) = (map_of m)(k \<mapsto> v)"
  by (induction m) (auto)

lemma new_Map_snoc: "new_Map (es @ [(k, v)]) = Map_set (new_Map es) k v"
  by (simp add: new_Map_def)

lemma new_Map_keys: "map fst (new_Map es) = firstSeen (map fst es)"
proof (induction es rule: rev_induct)
  case Nil
  show ?case by (simp add: new_Map_def firstSeen_def)
next
  case (snoc e es)
  obtain k v where e: "e = (k, v)" by (cases e)
  have set_eq: "fst ` set (new_Map es) = fst ` set es"
  proof -
    have "set (map fst (new_Map es)) = set (firstSeen (map fst es))"
      by (simp only: snoc.IH)
    then show ?thesis by (simp add: firstSeen_def)
  qed
  show ?case
    unfolding e new_Map_snoc Map_set_keys set_eq snoc.IH
    by (auto simp: firstSeen_def)
qed

lemma new_Map_distinct: "distinct (map fst (new_Map es))"
  by (simp add: new_Map_keys firstSeen_def)

lemma new_Map_lookup: "map_of (new_Map es) = map_of (rev es)"
proof (induction es rule: rev_induct)
  case Nil
  show ?case by (simp add: new_Map_def)
next
  case (snoc e es)
  obtain k v where e: "e = (k, v)" by (cases e)
  show ?case
    unfolding e new_Map_snoc Map_set_lookup snoc.IH by simp
qed

lemma lookup_last_writer:
  "n \<in> feature ` set fs \<Longrightarrow>
   map_of (rev (map (\<lambda>f. (feature f, f)) fs)) n = Some (lastWriter fs n)"
proof (induction fs rule: rev_induct)
  case Nil
  then show ?case by simp
next
  case (snoc f fs)
  show ?case
  proof (cases "feature f = n")
    case True
    then show ?thesis by (simp add: lastWriter_def)
  next
    case False
    with snoc.prems have "n \<in> feature ` set fs" by auto
    from snoc.IH[OF this] False show ?thesis by (simp add: lastWriter_def)
  qed
qed

lemma values_by_keys:
  "distinct (map fst m) \<Longrightarrow> map snd m = map (\<lambda>k. the (map_of m k)) (map fst m)"
proof (induction m)
  case Nil
  show ?case by simp
next
  case (Cons e m)
  obtain k v where e: "e = (k, v)" by (cases e)
  from Cons.prems have fresh: "k \<notin> set (map fst m)" and dist: "distinct (map fst m)"
    by (simp_all add: e)
  have "map (\<lambda>k'. the (map_of (e # m) k')) (map fst m) = map (\<lambda>k'. the (map_of m k')) (map fst m)"
  proof (rule map_cong[OF refl])
    fix k' assume "k' \<in> set (map fst m)"
    with fresh have "k' \<noteq> k" by auto
    then show "the (map_of (e # m) k') = the (map_of m k')" by (simp add: e)
  qed
  with Cons.IH[OF dist] show ?case by (simp add: e)
qed

lemma evidencePool_spec: "evidencePool fs = spec_evidencePool fs"
proof -
  let ?es = "map (\<lambda>f. (feature f, f)) fs"
  have keys: "map fst (new_Map ?es) = firstSeen (map feature fs)"
    by (simp add: new_Map_keys comp_def)
  have "evidencePool fs = map (\<lambda>k. the (map_of (new_Map ?es) k)) (map fst (new_Map ?es))"
    unfolding evidencePool_def Map_values_def
    by (rule values_by_keys) (rule new_Map_distinct)
  also have "\<dots> = map (\<lambda>k. the (map_of (rev ?es) k)) (firstSeen (map feature fs))"
    by (simp only: keys new_Map_lookup)
  also have "\<dots> = map (lastWriter fs) (firstSeen (map feature fs))"
  proof (rule map_cong[OF refl])
    fix n assume "n \<in> set (firstSeen (map feature fs))"
    then have "n \<in> feature ` set fs" by (simp add: firstSeen_def)
    from lookup_last_writer[OF this] show "the (map_of (rev ?es) n) = lastWriter fs n"
      by simp
  qed
  finally show ?thesis by (simp add: spec_evidencePool_def)
qed

lemma insert_sorted_insort:
  "insert_sorted (\<lambda>a b. impactScore b - impactScore a) x ys = insort_key (\<lambda>f. - impactScore f) x ys"
  by (induction ys) auto

lemma Array_sort_sort_key:
  "Array_sort (\<lambda>a b. impactScore b - impactScore a) xs = sort_key (\<lambda>f. - impactScore f) xs"
  by (induction xs) (auto simp: Array_sort_def insert_sorted_insort sort_key_def)

lemma uniqueFeatures_spec: "uniqueFeatures fs = spec_keyFeatures fs"
  by (simp add: uniqueFeatures_def rankedFeatures_def spec_keyFeatures_def
      Array_sort_sort_key evidencePool_spec)

subsection \<open>Ranking of the published features\<close>

lemma features_ranked_seek [simp]: "features_ranked (seek t S) = features_ranked S"
  by (simp add: features_ranked_def seek_def)

lemma features_ranked_dispatch [simp]: "features_ranked (dispatch f S) = features_ranked S"
  by (simp add: features_ranked_def dispatch_def)

lemma features_ranked_snoc:
  assumes len: "length (published S) = length (folded S)"
    and old: "features_ranked S"
    and new: "keyFeatures r = uniqueFeatures (concat (map keyFeatures (folded S @ fs)))"
    and S': "published S' = published S @ [r]" "folded S' = folded S @ fs"
    and short: "length fs \<le> 1"
  shows "features_ranked S'"
  unfolding features_ranked_def
proof (intro allI impI)
  fix k assume k: "k < length (published S')"
  show "keyFeatures (published S' ! k) =
      uniqueFeatures (concat (map keyFeatures (take (Suc k) (folded S'))))"
  proof (cases "k < length (published S)")
    case True
    with old have "keyFeatures (published S ! k) =
        uniqueFeatures (concat (map keyFeatures (take (Suc k) (folded S))))"
      by (simp add: features_ranked_def)
    with True len show ?thesis by (simp add: S' nth_append)
  next
    case False
    with k have "k = length (published S)" by (simp add: S')
    with len new short show ?thesis by (simp add: S' nth_append)
  qed
qed

lemma features_ranked_fold:
  assumes "consistent S" "features_ranked S"
  shows "features_ranked (publish (progressiveResult (foldFrame fr S) fr c n) (foldFrame fr S))"
proof (rule features_ranked_snoc[where S = S and fs = "[fr]"])
  show "length (published S) = length (folded S)"
    using assms(1) by (simp add: consistent_def)
  show "features_ranked S" by fact
  show "keyFeatures (progressiveResult (foldFrame fr S) fr c n) =
      uniqueFeatures (concat (map keyFeatures (folded S @ [fr])))"
    using assms(1) by (simp add: consistent_def progressiveResult_def foldFrame_def Let_def)
qed (simp_all add: publish_def foldFrame_def)

lemma frames_loop_features_ranked:
  "consistent S \<Longrightarrow> features_ranked S \<Longrightarrow>
   features_ranked (fst (snd (frames_loop H E i n ts k S w)))"
proof (induction ts arbitrary: k S w)
  case Nil
  then show ?case by simp
next
  case (Cons t ts)
  show ?case
  proof (cases "captureFrame E t = []")
    case True
    with Cons show ?thesis by simp
  next
    case False
    show ?thesis
    proof (cases "detectAIContent E k (captureFrame E t)")
      case (Inl m)
      with False Cons.prems show ?thesis by simp
    next
      case (Inr fr)
      let ?S = "dispatch (captureFrame E t) (seek t S)"
      have c: "consistent ?S" and r: "features_ranked ?S"
        using Cons.prems by simp_all
      from Cons.IH[OF consistent_fold[OF c] features_ranked_fold[OF c r]] False Inr
      show ?thesis by simp
    qed
  qed
qed

lemma newSession_consistent: "consistent (newSession url)"
  by (simp add: consistent_def newSession_def)

lemma newSession_features_ranked: "features_ranked (newSession url)"
  by (simp add: features_ranked_def newSession_def)

lemma finish_features_ranked:
  assumes "consistent S" "features_ranked S"
  shows "features_ranked (fst (finish item n (thrown, S, w)))"
proof (cases thrown)
  case (Some m)
  with assms show ?thesis by (simp add: finish_def)
next
  case None
  show ?thesis
  proof (cases "lastResult S")
    case None
    with \<open>thrown = None\<close> assms show ?thesis by (simp add: finish_def)
  next
    case (Some lr)
    have "features_ranked (publish (finalResult S n) S)"
    proof (rule features_ranked_snoc[where S = S and fs = "[]"])
      show "length (published S) = length (folded S)"
        using assms(1) by (simp add: consistent_def)
      show "features_ranked S" by fact
      show "keyFeatures (finalResult S n) = uniqueFeatures (concat (map keyFeatures (folded S @ [])))"
        using assms(1) by (simp add: consistent_def finalResult_def Let_def)
    qed (simp_all add: publish_def)
    with \<open>thrown = None\<close> Some show ?thesis by (simp add: finish_def)
  qed
qed

lemma handle_session:
  assumes "handleProgressiveVideoAnalysis H E item w = (Some S, w')"
  obtains url thrown S1 w1 S2 where
    "previewUrl item = Some url" "url \<noteq> []"
    "frames_loop H E (qid item) (length (timestamps_of (videoDuration E) (sampleInterval E)))
       (timestamps_of (videoDuration E) (sampleInterval E)) 0 (newSession url)
       (startAnalysis (qid item) (length (timestamps_of (videoDuration E) (sampleInterval E)))
          (H AwaitMetadata w)) = (thrown, S1, w1)"
    "finish item (length (timestamps_of (videoDuration E) (sampleInterval E))) (thrown, S1, w1) = (S2, w')"
    "S = S2\<lparr>videoSrc := None\<rparr>"
proof -
  from assms obtain url where url: "previewUrl item = Some url" "url \<noteq> []"
    by (auto simp: handleProgressiveVideoAnalysis_def split: option.splits if_splits)
  let ?n = "length (timestamps_of (videoDuration E) (sampleInterval E))"
  obtain thrown S1 w1 where loop:
    "frames_loop H E (qid item) ?n (timestamps_of (videoDuration E) (sampleInterval E)) 0
       (newSession url) (startAnalysis (qid item) ?n (H AwaitMetadata w)) = (thrown, S1, w1)"
    by (cases "frames_loop H E (qid item) ?n (timestamps_of (videoDuration E) (sampleInterval E)) 0
       (newSession url) (startAnalysis (qid item) ?n (H AwaitMetadata w))") 
  obtain S2 w2 where fin: "finish item ?n (thrown, S1, w1) = (S2, w2)"
    by (cases "finish item ?n (thrown, S1, w1)")
  from assms url loop fin have "S = S2\<lparr>videoSrc := None\<rparr>" "w' = w2"
    by (simp_all add: handleProgressiveVideoAnalysis_def Let_def)
  with url loop fin that show thesis by blast
qed

lemma features_ranked_release [simp]:
  "features_ranked (S\<lparr>videoSrc := None\<rparr>) = features_ranked S"
  by (simp add: features_ranked_def)

lemma handle_features_ranked:
  assumes "handleProgressiveVideoAnalysis H E item w = (Some S, w')"
  shows "features_ranked S"
proof -
  from assms obtain url thrown S1 w1 S2 where
    loop: "frames_loop H E (qid item) (length (timestamps_of (videoDuration E) (sampleInterval E)))
       (timestamps_of (videoDuration E) (sampleInterval E)) 0 (newSession url)
       (startAnalysis (qid item) (length (timestamps_of (videoDuration E) (sampleInterval E)))
          (H AwaitMetadata w)) = (thrown, S1, w1)"
    and fin: "finish item (length (timestamps_of (videoDuration E) (sampleInterval E))) (thrown, S1, w1) = (S2, w')"
    and S: "S = S2\<lparr>videoSrc := None\<rparr>"
    by (rule handle_session)
  have c: "consistent S1"
    using frames_loop_consistent[OF newSession_consistent, of H E "qid item" _ _ 0 url] loop
    by (metis fst_conv snd_conv)
  have r: "features_ranked S1"
    using frames_loop_features_ranked[OF newSession_consistent newSession_features_ranked, of H E "qid item" _ _ 0 url] loop
    by (metis fst_conv snd_conv)
  have "features_ranked (fst (finish item
      (length (timestamps_of (videoDuration E) (sampleInterval E))) (thrown, S1, w1)))"
    by (rule finish_features_ranked[OF c r])
  with fin S show ?thesis
    by simp
qed

subsection \<open>Runs without a failing frame; score ranges\<close>

lemma progressiveResult_publish [simp]:
  "progressiveResult (publish r S) fr c n = progressiveResult S fr c n"
  by (simp add: progressiveResult_def publish_def)

lemma frames_loop_all_ok:
  assumes "\<forall>j < length ts. captureFrame E (ts ! j) \<noteq> [] \<and>
             \<not> isl (detectAIContent E (k + j) (captureFrame E (ts ! j)))"
    and "ts \<noteq> []"
  shows "\<exists>S' w' lr. frames_loop H E i n ts k S w = (None, S', w') \<and>
           lastResult S' = Some lr \<and> published S' \<noteq> [] \<and>
           last (published S') = progressiveResult S' lr (k + length ts) n \<and>
           length (published S') = length (published S) + length ts"
  using assms
proof (induction ts arbitrary: k S w)
  case Nil
  then show ?case by simp
next
  case (Cons t ts)
  from Cons.prems(1) have cap: "captureFrame E t \<noteq> []"
    and ok: "\<not> isl (detectAIContent E k (captureFrame E t))"
    by force+
  from ok obtain fr where fr: "detectAIContent E k (captureFrame E t) = Inr fr"
    by (cases "detectAIContent E k (captureFrame E t)") auto
  let ?S3 = "foldFrame fr (dispatch (captureFrame E t) (seek t S))"
  let ?r = "progressiveResult ?S3 fr (k + 1) n"
  let ?S4 = "publish ?r ?S3"
  let ?w3 = "showProgress i (k + 1) ?r (H (AwaitClassify k) (H (AwaitCapture k) w))"
  have step: "frames_loop H E i n (t # ts) k S w = frames_loop H E i n ts (Suc k) ?S4 ?w3"
    using cap fr by simp
  show ?case
  proof (cases "ts = []")
    case True
    have "lastResult ?S4 = Some fr"
      by (simp add: publish_def foldFrame_def)
    moreover have "published ?S4 \<noteq> []" "last (published ?S4) = ?r"
      "length (published ?S4) = length (published S) + 1"
      by (simp_all add: publish_def foldFrame_def dispatch_def seek_def)
    moreover have "progressiveResult ?S4 fr (k + 1) n = ?r"
      by (simp only: progressiveResult_publish)
    moreover have "frames_loop H E i n (t # ts) k S w = (None, ?S4, ?w3)"
      unfolding step by (simp add: True)
    ultimately show ?thesis
      by (simp add: True)
  next
    case False
    have tl: "\<forall>j < length ts. captureFrame E (ts ! j) \<noteq> [] \<and>
             \<not> isl (detectAIContent E (Suc k + j) (captureFrame E (ts ! j)))"
    proof (intro allI impI)
      fix j assume "j < length ts"
      then have "Suc j < length (t # ts)" by simp
      from Cons.prems(1)[rule_format, OF this]
      show "captureFrame E (ts ! j) \<noteq> [] \<and>
             \<not> isl (detectAIContent E (Suc k + j) (captureFrame E (ts ! j)))"
        by simp
    qed
    from Cons.IH[OF tl False, of ?S4 ?w3] obtain S' w' lr where
      "frames_loop H E i n ts (Suc k) ?S4 ?w3 = (None, S', w')"
      "lastResult S' = Some lr" "published S' \<noteq> []"
      "last (published S') = progressiveResult S' lr (Suc k + length ts) n"
      "length (published S') = length (published ?S4) + length ts"
      by blast
    then show ?thesis
      unfolding step by (simp add: publish_def foldFrame_def dispatch_def seek_def)
  qed
qed

lemma finish_session_independent:
  "fst (finish item n (thrown, S, w)) = fst (finish item n (thrown, S, w'))"
  by (simp add: finish_def split: option.splits)

lemma Math_round_range: "0 \<le> x \<Longrightarrow> x \<le> 100 \<Longrightarrow> 0 \<le> Math_round x \<and> Math_round x \<le> 100"
proof -
  assume a: "0 \<le> x" "x \<le> 100"
  have "\<lfloor>x + 1 / 2\<rfloor> \<le> \<lfloor>100 + 1 / 2 :: real\<rfloor>"
    using a by (intro floor_mono) simp
  moreover have "\<lfloor>100 + 1 / 2 :: real\<rfloor> = 100" by simp
  moreover have "0 \<le> \<lfloor>x + 1 / 2\<rfloor>" using a by simp
  ultimately show ?thesis by (simp add: Math_round_def)
qed

lemma bounded_mono: "bounded k S \<Longrightarrow> k \<le> k' \<Longrightarrow> bounded k' S"
proof -
  assume b: "bounded k S" and le: "k \<le> k'"
  have "100 * (of_nat k :: real) \<le> 100 * of_nat k'" using le by simp
  with b show ?thesis unfolding bounded_def by (meson order_trans)
qed

lemma bounded_seek [simp]: "bounded k (seek t S) = bounded k S"
  by (simp add: bounded_def seek_def)

lemma bounded_dispatch [simp]: "bounded k (dispatch f S) = bounded k S"
  by (simp add: bounded_def dispatch_def)

lemma average_in_range:
  assumes "0 \<le> a" "a \<le> 100 * of_nat c" "0 < c"
  shows "0 \<le> Math_round (a / of_nat c) \<and> Math_round (a / of_nat c) \<le> 100"
proof (rule Math_round_range)
  show "0 \<le> a / of_nat c" using assms by simp
  show "a / of_nat c \<le> 100" using assms by (simp add: divide_le_eq)
qed

lemma bounded_fold:
  assumes "bounded k S" "in_range fr"
  shows "bounded (Suc k) (publish (progressiveResult (foldFrame fr S) fr (Suc k) n) (foldFrame fr S))"
proof -
  let ?S = "foldFrame fr S"
  have p: "0 \<le> aggregatedProb ?S" "aggregatedProb ?S \<le> 100 * of_nat (Suc k)"
    and c: "0 \<le> aggregatedConf ?S" "aggregatedConf ?S \<le> 100 * of_nat (Suc k)"
    using assms by (simp_all add: bounded_def in_range_def foldFrame_def algebra_simps)
  have "in_range (progressiveResult ?S fr (Suc k) n)"
    using average_in_range[OF p] average_in_range[OF c]
    by (simp add: in_range_def progressiveResult_def Let_def)
  moreover have "\<forall>r \<in> set (published ?S). in_range r"
    using assms(1) by (simp add: bounded_def foldFrame_def)
  ultimately show ?thesis
    using p c by (simp add: bounded_def publish_def)
qed

lemma frames_loop_bounded:
  assumes "\<forall>j f r. detectAIContent E j f = Inr r \<longrightarrow> in_range r"
  shows "bounded k S \<Longrightarrow> bounded (k + length ts) (fst (snd (frames_loop H E i n ts k S w)))"
proof (induction ts arbitrary: k S w)
  case Nil
  then show ?case by simp
next
  case (Cons t ts)
  show ?case
  proof (cases "captureFrame E t = []")
    case True
    have "bounded (Suc k) (seek t S)"
      using Cons.prems by (simp add: bounded_mono[of k])
    from Cons.IH[OF this] True show ?thesis by simp
  next
    case False
    show ?thesis
    proof (cases "detectAIContent E k (captureFrame E t)")
      case (Inl m)
      with False Cons.prems show ?thesis by (simp add: bounded_mono[of k])
    next
      case (Inr fr)
      with assms have "in_range fr" by blast
      with Cons.prems have "bounded (Suc k)
          (publish (progressiveResult (foldFrame fr (dispatch (captureFrame E t) (seek t S))) fr (Suc k) n)
             (foldFrame fr (dispatch (captureFrame E t) (seek t S))))"
        by (intro bounded_fold) simp_all
      from Cons.IH[OF this] False Inr show ?thesis by simp
    qed
  qed
qed

lemma frames_loop_seeks:
  "fst (frames_loop H E i n ts k S w) = None \<Longrightarrow>
   seeks (fst (snd (frames_loop H E i n ts k S w))) = seeks S @ ts"
proof (induction ts arbitrary: k S w)
  case Nil
  show ?case by simp
next
  case (Cons t ts)
  show ?case
  proof (cases "captureFrame E t = []")
    case True
    with Cons.prems have "fst (frames_loop H E i n ts (Suc k) (seek t S) (H (AwaitCapture k) w)) = None"
      by simp
    from Cons.IH[OF this] True show ?thesis by (simp add: seek_def)
  next
    case False
    show ?thesis
    proof (cases "detectAIContent E k (captureFrame E t)")
      case (Inl m)
      with False Cons.prems show ?thesis by simp
    next
      case (Inr fr)
      let ?S = "publish
          (progressiveResult (foldFrame fr (dispatch (captureFrame E t) (seek t S))) fr (k + 1) n)
          (foldFrame fr (dispatch (captureFrame E t) (seek t S)))"
      let ?w = "showProgress i (k + 1)
          (progressiveResult (foldFrame fr (dispatch (captureFrame E t) (seek t S))) fr (k + 1) n)
          (H (AwaitClassify k) (H (AwaitCapture k) w))"
      from Cons.prems False Inr have "fst (frames_loop H E i n ts (Suc k) ?S ?w) = None"
        by simp
      from Cons.IH[OF this] False Inr show ?thesis
        by (simp add: publish_def foldFrame_def dispatch_def seek_def)
    qed
  qed
qed

subsection \<open>The whole function\<close>

lemma handle_unfold:
  assumes "previewUrl item = Some url" "url \<noteq> []"
  shows "handleProgressiveVideoAnalysis H E item w =
     (Some ((fst (finish item (length (timestamps_of (videoDuration E) (sampleInterval E)))
        (frames_loop H E (qid item) (length (timestamps_of (videoDuration E) (sampleInterval E)))
           (timestamps_of (videoDuration E) (sampleInterval E)) 0 (newSession url)
           (startAnalysis (qid item) (length (timestamps_of (videoDuration E) (sampleInterval E)))
              (H AwaitMetadata w)))))\<lparr>videoSrc := None\<rparr>),
      snd (finish item (length (timestamps_of (videoDuration E) (sampleInterval E)))
        (frames_loop H E (qid item) (length (timestamps_of (videoDuration E) (sampleInterval E)))
           (timestamps_of (videoDuration E) (sampleInterval E)) 0 (newSession url)
           (startAnalysis (qid item) (length (timestamps_of (videoDuration E) (sampleInterval E)))
              (H AwaitMetadata w)))))"
  using assms by (simp add: handleProgressiveVideoAnalysis_def Let_def split: prod.splits)

text \<open>The equations that evaluate a run on a concrete input.\<close>

lemmas run_defs = handleProgressiveVideoAnalysis_def timestamps_of_def schedule_loop.simps
  newSession_def finish_def seek_def dispatch_def publish_def foldFrame_def
  progressiveResult_def finalResult_def showProgress_def showFinal_def showError_def
  startAnalysis_def updateQueueItem_def setResult_def addToast_def saveToHistory_def
  spread_def no_updates_def Math_round_def progressiveLabel_def finalLabel_def Let_def
  quiet_def clip_def app0_def frame_def

lemmas rank_defs = uniqueFeatures_def rankedFeatures_def evidencePool_def new_Map_def
  Map_values_def Array_sort_def blur_def halo_def

lemma published_in_range:
  assumes cls: "\<forall>j f r. detectAIContent E j f = Inr r \<longrightarrow> in_range r"
    and run: "handleProgressiveVideoAnalysis H E item w = (Some S, w')"
  shows "\<forall>r \<in> set (published S). in_range r"
proof -
  let ?ts = "timestamps_of (videoDuration E) (sampleInterval E)"
  let ?n = "length ?ts"
  from run obtain url thrown S1 w1 S2 where
    loop: "frames_loop H E (qid item) ?n ?ts 0 (newSession url)
       (startAnalysis (qid item) ?n (H AwaitMetadata w)) = (thrown, S1, w1)"
    and fin: "finish item ?n (thrown, S1, w1) = (S2, w')"
    and S: "S = S2\<lparr>videoSrc := None\<rparr>"
    by (rule handle_session)
  have "bounded 0 (newSession url)"
    by (simp add: bounded_def newSession_def)
  from frames_loop_bounded[OF cls this, of ?ts H "qid item" ?n
      "startAnalysis (qid item) ?n (H AwaitMetadata w)"] loop
  have b: "bounded ?n S1" by simp
  have pos: "0 < ?n" by (simp add: timestamps_of_nonempty)
  have "in_range (finalResult S1 ?n)"
    using b average_in_range[OF _ _ pos, of "aggregatedProb S1"]
      average_in_range[OF _ _ pos, of "aggregatedConf S1"]
    by (simp add: bounded_def in_range_def finalResult_def Let_def)
  with b fin have "\<forall>r \<in> set (published S2). in_range r"
    by (auto simp: finish_def bounded_def publish_def split: option.splits)
  with S show ?thesis by simp
qed

subsection \<open>Averages and the number of folded frames\<close>

text \<open>
  Claim C1 (the code departs from it).  The claim divides the sum of the folded
  probabilities by the number of frames folded.  The code divides by the loop index plus
  one and, at the end, by the number of scheduled segments.  For a 10 second video whose
  capture at 0 seconds yields no data and whose frame at 5 seconds is classified with
  probability 80 and confidence 90, exactly one frame is folded, yet both the
  intermediate and the final result report probability 40 and confidence 45 where the
  claim gives 80 and 90.
\<close>

theorem skipped_frame_dilutes_average:
  "timestamps_of 10 5 = [0, 5] \<and>
   map_option (map probabilityAI \<circ> folded)
     (fst (handleProgressiveVideoAnalysis quiet env_skip_at_0 clip app0)) = Some [80] \<and>
   map_option (map probabilityAI \<circ> published)
     (fst (handleProgressiveVideoAnalysis quiet env_skip_at_0 clip app0)) = Some [40, 40] \<and>
   map_option (map confidence \<circ> published)
     (fst (handleProgressiveVideoAnalysis quiet env_skip_at_0 clip app0)) = Some [45, 45] \<and>
   Math_round (80 / 1) = 80 \<and> Math_round (90 / 1) = 90"
  by (simp add: run_defs env_skip_at_0_def)

text \<open>
  Claim C8 (the code departs from it).  The claim's invariant has the running count
  equal to the number of frame results folded so far.  For the 12 second video whose
  capture at 5 seconds yields no data, two frames are folded (80 and 60), but the count
  used for the second fold and reported as \<open>segmentsProcessed\<close> is 3, and the published
  probabilities are 80, 47 and 47 instead of 80, 70 and 70.  The published values stay
  within 0..100 all the same (lemma \<open>published_in_range\<close>).
\<close>

theorem count_is_not_number_folded:
  "timestamps_of 12 5 = [0, 5, 10] \<and>
   map_option (length \<circ> folded)
     (fst (handleProgressiveVideoAnalysis quiet env_skip_at_5 clip app0)) = Some 2 \<and>
   map_option (map probabilityAI \<circ> folded)
     (fst (handleProgressiveVideoAnalysis quiet env_skip_at_5 clip app0)) = Some [80, 60] \<and>
   map segmentsProcessed
     (queue (snd (handleProgressiveVideoAnalysis quiet env_skip_at_5 clip app0))) = [Some 3] \<and>
   map_option (map probabilityAI \<circ> published)
     (fst (handleProgressiveVideoAnalysis quiet env_skip_at_5 clip app0)) = Some [80, 47, 47] \<and>
   Math_round ((80 + 60) / 2) = 70"
  by (simp add: run_defs env_skip_at_5_def)

subsection \<open>A frame whose classification fails\<close>

text \<open>
  Claim C2 as stated fails.  In its own example (12 seconds, interval 5, the frame at 5
  seconds failing after the frame at 0 gave 80) the item ends in status error with
  \<open>segmentsProcessed\<close> 1, the frame at 10 seconds is never captured, and the result is
  the intermediate one with probability 80, not a final one with 70.
\<close>

theorem failed_frame_aborts_example:
  "timestamps_of 12 5 = [0, 5, 10] \<and>
   map status (queue (snd (handleProgressiveVideoAnalysis quiet env_fail_at_5 clip app0)))
     = [Error] \<and>
   map qerror (queue (snd (handleProgressiveVideoAnalysis quiet env_fail_at_5 clip app0)))
     = [Some ''quota exceeded''] \<and>
   map segmentsProcessed (queue (snd (handleProgressiveVideoAnalysis quiet env_fail_at_5 clip app0)))
     = [Some 1] \<and>
   map totalSegments (queue (snd (handleProgressiveVideoAnalysis quiet env_fail_at_5 clip app0)))
     = [Some 3] \<and>
   map_option probabilityAI
     (shownResult (snd (handleProgressiveVideoAnalysis quiet env_fail_at_5 clip app0))) = Some 80 \<and>
   map_option label
     (shownResult (snd (handleProgressiveVideoAnalysis quiet env_fail_at_5 clip app0)))
     = Some Likely_AI \<and>
   map_option seeks (fst (handleProgressiveVideoAnalysis quiet env_fail_at_5 clip app0))
     = Some [0, 5] \<and>
   map_option (map probabilityAI \<circ> published)
     (fst (handleProgressiveVideoAnalysis quiet env_fail_at_5 clip app0)) = Some [80]"
  by (simp add: run_defs env_fail_at_5_def)

text \<open>
  Claim C2, amended.  When the classification of a frame fails, the frames before it
  having been skipped for want of capture data or classified, the failing frame is not
  folded and does not change \<open>segmentsProcessed\<close>, and the session stops there: the
  \<^verbatim>\<open>catch\<close> clause moves the item to status error with the classifier's message (or
  "Progressive analysis failed" when it is empty), no later timestamp is captured or
  classified, no final result is published, and the queue item keeps the
  \<open>segmentsProcessed\<close> and the result of the state reached before the failing frame.
\<close>

theorem classifier_failure_aborts:
  assumes "previewUrl item = Some url" and "url \<noteq> []"
    and ts: "timestamps_of (videoDuration E) (sampleInterval E) = pre @ t # post"
    and pre: "\<forall>j < length pre. captureFrame E (pre ! j) = [] \<or>
               \<not> isl (detectAIContent E j (captureFrame E (pre ! j)))"
    and cap: "captureFrame E t \<noteq> []"
    and fail: "detectAIContent E (length pre) (captureFrame E t) = Inl message"
  shows "\<exists>S1 w1 S w'.
     frames_loop quiet E (qid item) (length (pre @ t # post)) pre 0 (newSession url)
       (startAnalysis (qid item) (length (pre @ t # post)) w) = (None, S1, w1) \<and>
     handleProgressiveVideoAnalysis quiet E item w = (Some S, w') \<and>
     S = (dispatch (captureFrame E t) (seek t S1))\<lparr>videoSrc := None\<rparr> \<and>
     w' = showError (qid item)
            (if message = [] then ''Progressive analysis failed'' else message) w1 \<and>
     seeks S = pre @ [t] \<and> folded S = folded S1 \<and> published S = published S1 \<and>
     length (published S) = length (folded S) \<and>
     map segmentsProcessed (queue w') = map segmentsProcessed (queue w1) \<and>
     map qresult (queue w') = map qresult (queue w1) \<and>
     shownResult w' = shownResult w1 \<and> history w' = history w1 \<and>
     (\<forall>q \<in> set (queue w'). qid q = qid item \<longrightarrow>
        status q = Error \<and>
        qerror q = Some (if message = [] then ''Progressive analysis failed'' else message))"
proof -
  let ?n = "length (pre @ t # post)"
  let ?w0 = "startAnalysis (qid item) ?n w"
  let ?m = "if message = [] then ''Progressive analysis failed'' else message"
  obtain thrown S1 w1 where loop1:
    "frames_loop quiet E (qid item) ?n pre 0 (newSession url) ?w0 = (thrown, S1, w1)"
    by (cases "frames_loop quiet E (qid item) ?n pre 0 (newSession url) ?w0")
  have none: "fst (frames_loop quiet E (qid item) ?n pre 0 (newSession url) ?w0) = None"
    by (rule frames_loop_no_throw) (use pre in simp)
  with loop1 have thrown: "thrown = None" by simp
  have sk: "seeks S1 = pre"
    using frames_loop_seeks[OF none] loop1 by (simp add: newSession_def)
  have cons: "consistent S1"
    using frames_loop_consistent[OF newSession_consistent, of quiet E "qid item" ?n pre 0 url ?w0]
      loop1 by simp
  have "frames_loop quiet E (qid item) ?n (pre @ t # post) 0 (newSession url) ?w0 =
      (Some message, dispatch (captureFrame E t) (seek t S1), w1)"
    unfolding frames_loop_append loop1 thrown
    using cap fail by (simp add: quiet_def)
  then have run: "handleProgressiveVideoAnalysis quiet E item w =
       (Some ((dispatch (captureFrame E t) (seek t S1))\<lparr>videoSrc := None\<rparr>),
        showError (qid item) ?m w1)"
    unfolding handle_unfold[OF assms(1,2)] ts
    by (simp add: finish_def quiet_def)
  have world: "map segmentsProcessed (queue (showError (qid item) ?m w1)) =
        map segmentsProcessed (queue w1)"
      "map qresult (queue (showError (qid item) ?m w1)) = map qresult (queue w1)"
      "shownResult (showError (qid item) ?m w1) = shownResult w1"
      "history (showError (qid item) ?m w1) = history w1"
      "\<forall>q \<in> set (queue (showError (qid item) ?m w1)). qid q = qid item \<longrightarrow>
         status q = Error \<and> qerror q = Some ?m"
    by (auto simp: showError_def addToast_def updateQueueItem_def spread_def no_updates_def)
  have sess: "seeks ((dispatch (captureFrame E t) (seek t S1))\<lparr>videoSrc := None\<rparr>) = pre @ [t]"
      "folded ((dispatch (captureFrame E t) (seek t S1))\<lparr>videoSrc := None\<rparr>) = folded S1"
      "published ((dispatch (captureFrame E t) (seek t S1))\<lparr>videoSrc := None\<rparr>) = published S1"
      "length (published S1) = length (folded S1)"
    using cons by (simp_all add: dispatch_def seek_def sk consistent_def)
  from loop1 thrown run world sess show ?thesis
    by (intro exI[of _ S1] exI[of _ w1]
        exI[of _ "(dispatch (captureFrame E t) (seek t S1))\<lparr>videoSrc := None\<rparr>"]
        exI[of _ "showError (qid item) ?m w1"]) simp
qed

theorem classifier_failure_aborts_witness:
  "previewUrl clip = Some ''blob:clip'' \<and>
   timestamps_of (videoDuration env_fail_at_5) (sampleInterval env_fail_at_5) = [0] @ 5 # [10] \<and>
   \<not> isl (detectAIContent env_fail_at_5 0 (captureFrame env_fail_at_5 0)) \<and>
   captureFrame env_fail_at_5 5 \<noteq> [] \<and>
   detectAIContent env_fail_at_5 (length [0::real]) (captureFrame env_fail_at_5 5)
     = Inl ''quota exceeded'' \<and>
   (\<exists>S w'. handleProgressiveVideoAnalysis quiet env_fail_at_5 clip app0 = (Some S, w') \<and>
      seeks S = [0] @ [5] \<and> length (published S) = length (folded S) \<and>
      (\<forall>q \<in> set (queue w'). qid q = qid clip \<longrightarrow>
         status q = Error \<and> qerror q = Some ''quota exceeded''))"
proof -
  have h1: "previewUrl clip = Some ''blob:clip''" and h2: "''blob:clip'' \<noteq> []"
    by (simp_all add: clip_def)
  have h3: "timestamps_of (videoDuration env_fail_at_5) (sampleInterval env_fail_at_5)
      = [0] @ 5 # [10]"
    by (simp add: env_fail_at_5_def timestamps_of_def schedule_loop.simps)
  have ok0: "\<not> isl (detectAIContent env_fail_at_5 0 (captureFrame env_fail_at_5 0))"
    by (simp add: env_fail_at_5_def)
  then have h4: "\<forall>j < length [0::real]. captureFrame env_fail_at_5 ([0] ! j) = [] \<or>
      \<not> isl (detectAIContent env_fail_at_5 j (captureFrame env_fail_at_5 ([0] ! j)))"
    by simp
  have h5: "captureFrame env_fail_at_5 5 \<noteq> []"
    by (simp add: env_fail_at_5_def)
  have h6: "detectAIContent env_fail_at_5 (length [0::real]) (captureFrame env_fail_at_5 5)
      = Inl ''quota exceeded''"
    by (simp add: env_fail_at_5_def)
  from classifier_failure_aborts[OF h1 h2 h3 h4 h5 h6, of app0]
  have "\<exists>S w'. handleProgressiveVideoAnalysis quiet env_fail_at_5 clip app0 = (Some S, w') \<and>
      seeks S = [0] @ [5] \<and> length (published S) = length (folded S) \<and>
      (\<forall>q \<in> set (queue w'). qid q = qid clip \<longrightarrow>
         status q = Error \<and> qerror q = Some ''quota exceeded'')"
    by (elim exE conjE) (intro exI conjI, assumption, simp_all)
  with h1 h3 ok0 h5 h6 show ?thesis by blast
qed

subsection \<open>A session that folds no frame\<close>

text \<open>
  Claim C3 (the code departs from it).  The claim has a run that folds no frame by the
  end of the schedule move the item to status error with a descriptive message.  For
  the 12 second video none of whose captures yields data the loop ends normally with no
  frame folded; the guard on \<open>lastResult\<close> skips finalisation and has no other branch,
  so the item is left in status analyzing, with no error message and no toast, where
  every other path of the function ends in done or error.
\<close>

theorem no_frame_example:
  "timestamps_of 12 5 = [0, 5, 10] \<and>
   map_option folded (fst (handleProgressiveVideoAnalysis quiet env_no_frames clip app0))
     = Some [] \<and>
   map_option seeks (fst (handleProgressiveVideoAnalysis quiet env_no_frames clip app0))
     = Some [0, 5, 10] \<and>
   map status (queue (snd (handleProgressiveVideoAnalysis quiet env_no_frames clip app0)))
     = [Analyzing] \<and>
   map qerror (queue (snd (handleProgressiveVideoAnalysis quiet env_no_frames clip app0)))
     = [None] \<and>
   toasts (snd (handleProgressiveVideoAnalysis quiet env_no_frames clip app0)) = []"
  by (simp add: run_defs env_no_frames_def)

text \<open>
  The same for every input: when every capture comes back empty, the function changes
  the application state only by what it sets at the start of the session.
\<close>

lemma no_frame_captured:
  assumes "previewUrl item = Some url" and "url \<noteq> []"
    and "\<forall>t \<in> set (timestamps_of (videoDuration E) (sampleInterval E)). captureFrame E t = []"
  shows "handleProgressiveVideoAnalysis quiet E item w =
     (Some ((newSession url)\<lparr>seeks := timestamps_of (videoDuration E) (sampleInterval E),
                              videoSrc := None\<rparr>),
      startAnalysis (qid item) (length (timestamps_of (videoDuration E) (sampleInterval E))) w) \<and>
     published (newSession url) = [] \<and> classified (newSession url) = [] \<and>
     folded (newSession url) = [] \<and>
     shownResult (startAnalysis (qid item) n w) = shownResult w \<and>
     history (startAnalysis (qid item) n w) = history w \<and>
     toasts (startAnalysis (qid item) n w) = toasts w \<and>
     map qerror (queue (startAnalysis (qid item) n w)) = map qerror (queue w) \<and>
     map qresult (queue (startAnalysis (qid item) n w)) = map qresult (queue w) \<and>
     (\<forall>q \<in> set (queue (startAnalysis (qid item) n w)). qid q = qid item \<longrightarrow>
        status q = Analyzing \<and> segmentsProcessed q = Some 0 \<and> totalSegments q = Some n)"
proof -
  let ?ts = "timestamps_of (videoDuration E) (sampleInterval E)"
  have "frames_loop quiet E (qid item) (length ?ts) ?ts 0 (newSession url)
          (startAnalysis (qid item) (length ?ts) (quiet AwaitMetadata w))
        = (None, (newSession url)\<lparr>seeks := seeks (newSession url) @ ?ts\<rparr>,
           startAnalysis (qid item) (length ?ts) (quiet AwaitMetadata w))"
    by (rule frames_loop_all_empty) (rule assms(3))
  then have run: "handleProgressiveVideoAnalysis quiet E item w =
     (Some ((newSession url)\<lparr>seeks := ?ts, videoSrc := None\<rparr>),
      startAnalysis (qid item) (length ?ts) w)"
    unfolding handle_unfold[OF assms(1,2)]
    by (simp add: finish_def newSession_def quiet_def)
  have start: "shownResult (startAnalysis (qid item) n w) = shownResult w"
      "history (startAnalysis (qid item) n w) = history w"
      "toasts (startAnalysis (qid item) n w) = toasts w"
      "map qerror (queue (startAnalysis (qid item) n w)) = map qerror (queue w)"
      "map qresult (queue (startAnalysis (qid item) n w)) = map qresult (queue w)"
      "\<forall>q \<in> set (queue (startAnalysis (qid item) n w)). qid q = qid item \<longrightarrow>
        status q = Analyzing \<and> segmentsProcessed q = Some 0 \<and> totalSegments q = Some n"
    by (auto simp: startAnalysis_def updateQueueItem_def spread_def no_updates_def)
  have "published (newSession url) = []" "classified (newSession url) = []"
    "folded (newSession url) = []"
    by (simp_all add: newSession_def)
  with run start show ?thesis by simp
qed

subsection \<open>Key features of the published results\<close>

text \<open>
  Claim C4.  In every session, the result published after the \<open>k+1\<close>-th fold (for the
  final result: all folds) lists the top six entries of the evidence pool of the frames
  folded so far.  The pool has one entry per feature name, the one written last, the
  names in the order in which they were first seen; the ranking is by descending impact
  score and keeps entries of equal score in pool order.  Two entries "texture blur"
  with impact 40 and then 70 leave the single entry with impact 70.
\<close>

theorem keyFeatures_top6:
  assumes "handleProgressiveVideoAnalysis H E item w = (Some S, w')"
    and "k < length (published S)"
  shows "keyFeatures (published S ! k) =
           spec_keyFeatures (concat (map keyFeatures (take (Suc k) (folded S)))) \<and>
         uniqueFeatures fs = take 6 (rankedFeatures fs) \<and>
         evidencePool fs = spec_evidencePool fs \<and>
         map feature (evidencePool fs) = firstSeen (map feature fs) \<and>
         distinct (map feature (evidencePool fs)) \<and>
         sorted_wrt (\<lambda>a b. impactScore b \<le> impactScore a) (rankedFeatures fs) \<and>
         (\<forall>s. filter (\<lambda>f. impactScore f = s) (rankedFeatures fs) =
              filter (\<lambda>f. impactScore f = s) (evidencePool fs)) \<and>
         uniqueFeatures [blur 40, blur 70] = [blur 70]"
proof -
  have "features_ranked S"
    using assms(1) by (rule handle_features_ranked)
  with assms(2) have run: "keyFeatures (published S ! k) =
      spec_keyFeatures (concat (map keyFeatures (take (Suc k) (folded S))))"
    by (simp add: features_ranked_def uniqueFeatures_spec)
  have keys: "map feature (evidencePool fs) = firstSeen (map feature fs)"
  proof -
    have "map feature (map (lastWriter fs) (firstSeen (map feature fs))) =
        map (\<lambda>n. n) (firstSeen (map feature fs))"
      unfolding map_map
    proof (rule map_cong[OF refl])
      fix n assume "n \<in> set (firstSeen (map feature fs))"
      then have "filter (\<lambda>f. feature f = n) fs \<noteq> []"
        by (auto simp: firstSeen_def filter_empty_conv)
      from last_in_set[OF this] show "(feature \<circ> lastWriter fs) n = n"
        by (simp add: lastWriter_def)
    qed
    then show ?thesis by (simp add: evidencePool_spec spec_evidencePool_def)
  qed
  have dist: "distinct (map feature (evidencePool fs))"
    by (simp add: keys firstSeen_def)
  have ranked: "rankedFeatures fs = sort_key (\<lambda>f. - impactScore f) (evidencePool fs)"
    by (simp add: rankedFeatures_def Array_sort_sort_key)
  have "sorted (map (\<lambda>f. - impactScore f) (rankedFeatures fs))"
    unfolding ranked by (rule sorted_sort_key)
  then have srt: "sorted_wrt (\<lambda>a b. impactScore b \<le> impactScore a) (rankedFeatures fs)"
    by (simp add: sorted_map)
  have stable: "\<forall>s. filter (\<lambda>f. impactScore f = s) (rankedFeatures fs) =
              filter (\<lambda>f. impactScore f = s) (evidencePool fs)"
  proof
    fix s
    have "filter (\<lambda>f. - impactScore f = - s) (sort_key (\<lambda>f. - impactScore f) (evidencePool fs)) =
        filter (\<lambda>f. - impactScore f = - s) (evidencePool fs)"
      by (rule sort_key_stable)
    then show "filter (\<lambda>f. impactScore f = s) (rankedFeatures fs) =
              filter (\<lambda>f. impactScore f = s) (evidencePool fs)"
      by (simp add: ranked)
  qed
  have ex: "uniqueFeatures [blur 40, blur 70] = [blur 70]"
    by (simp add: rank_defs)
  from run keys dist srt stable ex show ?thesis
    by (simp add: uniqueFeatures_def evidencePool_spec)
qed

theorem keyFeatures_top6_witness:
  "map_option (map keyFeatures \<circ> published)
     (fst (handleProgressiveVideoAnalysis quiet env_features clip app0))
   = Some [[halo 55, blur 40], [blur 70, halo 55], [blur 70, halo 55]] \<and>
   map_option (map keyFeatures \<circ> folded)
     (fst (handleProgressiveVideoAnalysis quiet env_features clip app0))
   = Some [[blur 40, halo 55], [blur 70]] \<and>
   spec_keyFeatures [blur 40, halo 55, blur 70] = [blur 70, halo 55]"
proof -
  let ?S = "the (fst (handleProgressiveVideoAnalysis quiet env_features clip app0))"
  have run: "handleProgressiveVideoAnalysis quiet env_features clip app0 =
      (Some ?S, snd (handleProgressiveVideoAnalysis quiet env_features clip app0))"
    by (simp add: run_defs env_features_def)
  have len: "1 < length (published ?S)"
    by (simp add: run_defs env_features_def)
  have pub: "map_option (map keyFeatures \<circ> published)
     (fst (handleProgressiveVideoAnalysis quiet env_features clip app0))
   = Some [[halo 55, blur 40], [blur 70, halo 55], [blur 70, halo 55]]"
    by (simp add: run_defs env_features_def rank_defs)
  have fld: "map_option (map keyFeatures \<circ> folded)
     (fst (handleProgressiveVideoAnalysis quiet env_features clip app0))
   = Some [[blur 40, halo 55], [blur 70]]"
    by (simp add: run_defs env_features_def rank_defs)
  from keyFeatures_top6[OF run len]
  have "keyFeatures (published ?S ! 1) =
      spec_keyFeatures (concat (map keyFeatures (take (Suc 1) (folded ?S))))"
    by blast
  then have "spec_keyFeatures [blur 40, halo 55, blur 70] = [blur 70, halo 55]"
    by (simp add: run_defs env_features_def rank_defs)
  with pub fld show ?thesis by simp
qed

subsection \<open>Final and last intermediate result\<close>

text \<open>
  Claim C9.  When every scheduled frame is captured and classified, the session
  publishes one intermediate result per segment and then the final one, and the final
  result has the probability, the confidence and the key features of the last
  intermediate result; its label follows the three-way rule where the intermediate one
  follows the two-way rule, and its reasoning is the summary text.
\<close>

theorem final_equals_last_intermediate:
  assumes "previewUrl item = Some url" and "url \<noteq> []"
    and ok: "\<forall>j < length (timestamps_of (videoDuration E) (sampleInterval E)).
           captureFrame E (timestamps_of (videoDuration E) (sampleInterval E) ! j) \<noteq> [] \<and>
           \<not> isl (detectAIContent E j
                 (captureFrame E (timestamps_of (videoDuration E) (sampleInterval E) ! j)))"
  shows "\<exists>S w' earlier mid fin.
     handleProgressiveVideoAnalysis H E item w = (Some S, w') \<and>
     published S = earlier @ [mid, fin] \<and>
     Suc (length earlier) = length (timestamps_of (videoDuration E) (sampleInterval E)) \<and>
     probabilityAI fin = probabilityAI mid \<and>
     confidence fin = confidence mid \<and>
     keyFeatures fin = keyFeatures mid \<and>
     label mid = progressiveLabel (probabilityAI mid) \<and>
     label fin = finalLabel (probabilityAI fin) \<and>
     reasoning fin = finalReasoning (length (timestamps_of (videoDuration E) (sampleInterval E)))
                       (probabilityAI fin)"
proof -
  let ?ts = "timestamps_of (videoDuration E) (sampleInterval E)"
  let ?n = "length ?ts"
  let ?w0 = "startAnalysis (qid item) ?n (H AwaitMetadata w)"
  have ne: "?ts \<noteq> []" by (rule timestamps_of_nonempty)
  from ok have ok': "\<forall>j < length ?ts. captureFrame E (?ts ! j) \<noteq> [] \<and>
           \<not> isl (detectAIContent E (0 + j) (captureFrame E (?ts ! j)))"
    by simp
  from frames_loop_all_ok[OF ok' ne, of H "qid item" ?n "newSession url" ?w0]
  obtain S1 w1 lr where loop: "frames_loop H E (qid item) ?n ?ts 0 (newSession url) ?w0 = (None, S1, w1)"
    and lr: "lastResult S1 = Some lr" and pne: "published S1 \<noteq> []"
    and lst: "last (published S1) = progressiveResult S1 lr ?n ?n"
    and len: "length (published S1) = length (published (newSession url)) + ?n"
    by auto
  define mid where "mid = progressiveResult S1 lr ?n ?n"
  define fin where "fin = finalResult S1 ?n"
  define earlier where "earlier = butlast (published S1)"
  have pub: "published S1 = earlier @ [mid]"
    using append_butlast_last_id[OF pne] lst by (simp add: earlier_def mid_def)
  have run: "handleProgressiveVideoAnalysis H E item w =
      (Some ((publish fin S1)\<lparr>videoSrc := None\<rparr>), showFinal item ?n fin w1)"
    unfolding handle_unfold[OF assms(1,2)] loop
    by (simp add: finish_def lr fin_def)
  have "published ((publish fin S1)\<lparr>videoSrc := None\<rparr>) = earlier @ [mid, fin]"
    by (simp add: publish_def pub)
  moreover have "Suc (length earlier) = ?n"
    using len pub by (simp add: newSession_def)
  moreover have "probabilityAI fin = probabilityAI mid" "confidence fin = confidence mid"
    "keyFeatures fin = keyFeatures mid" "label mid = progressiveLabel (probabilityAI mid)"
    "label fin = finalLabel (probabilityAI fin)" "reasoning fin = finalReasoning ?n (probabilityAI fin)"
    by (simp_all add: fin_def mid_def finalResult_def progressiveResult_def Let_def)
  ultimately show ?thesis using run by blast
qed

theorem final_equals_last_intermediate_witness:
  "previewUrl clip = Some ''blob:clip'' \<and>
   timestamps_of (videoDuration env_all_ok) (sampleInterval env_all_ok) = [0, 5, 10] \<and>
   captureFrame env_all_ok 0 \<noteq> [] \<and> captureFrame env_all_ok 5 \<noteq> [] \<and>
   captureFrame env_all_ok 10 \<noteq> [] \<and>
   \<not> isl (detectAIContent env_all_ok 0 (captureFrame env_all_ok 0)) \<and>
   \<not> isl (detectAIContent env_all_ok 1 (captureFrame env_all_ok 5)) \<and>
   \<not> isl (detectAIContent env_all_ok 2 (captureFrame env_all_ok 10)) \<and>
   map_option (map probabilityAI \<circ> published)
     (fst (handleProgressiveVideoAnalysis quiet env_all_ok clip app0)) = Some [80, 75, 70, 70] \<and>
   map_option (map confidence \<circ> published)
     (fst (handleProgressiveVideoAnalysis quiet env_all_ok clip app0)) = Some [90, 85, 80, 80] \<and>
   map_option (map label \<circ> published)
     (fst (handleProgressiveVideoAnalysis quiet env_all_ok clip app0))
     = Some [Likely_AI, Likely_AI, Likely_AI, Likely_AI] \<and>
   (\<exists>S w' earlier mid fin.
      handleProgressiveVideoAnalysis quiet env_all_ok clip app0 = (Some S, w') \<and>
      published S = earlier @ [mid, fin] \<and>
      probabilityAI fin = probabilityAI mid \<and> confidence fin = confidence mid \<and>
      keyFeatures fin = keyFeatures mid)"
proof -
  have h1: "previewUrl clip = Some ''blob:clip''" and h2: "''blob:clip'' \<noteq> []"
    by (simp_all add: clip_def)
  have ts: "timestamps_of (videoDuration env_all_ok) (sampleInterval env_all_ok) = [0, 5, 10]"
    by (simp add: env_all_ok_def timestamps_of_def schedule_loop.simps)
  have cap: "captureFrame env_all_ok 0 \<noteq> []" "captureFrame env_all_ok 5 \<noteq> []"
    "captureFrame env_all_ok 10 \<noteq> []"
    and cls: "\<not> isl (detectAIContent env_all_ok 0 (captureFrame env_all_ok 0))"
    "\<not> isl (detectAIContent env_all_ok 1 (captureFrame env_all_ok 5))"
    "\<not> isl (detectAIContent env_all_ok 2 (captureFrame env_all_ok 10))"
    by (simp_all add: env_all_ok_def)
  have h3: "\<forall>j < length (timestamps_of (videoDuration env_all_ok) (sampleInterval env_all_ok)).
      captureFrame env_all_ok
        (timestamps_of (videoDuration env_all_ok) (sampleInterval env_all_ok) ! j) \<noteq> [] \<and>
      \<not> isl (detectAIContent env_all_ok j (captureFrame env_all_ok
        (timestamps_of (videoDuration env_all_ok) (sampleInterval env_all_ok) ! j)))"
    unfolding ts using cap cls
    by (simp add: less_Suc_eq nth_Cons' numeral_2_eq_2)
  have vals: "map_option (map probabilityAI \<circ> published)
     (fst (handleProgressiveVideoAnalysis quiet env_all_ok clip app0)) = Some [80, 75, 70, 70]"
    "map_option (map confidence \<circ> published)
     (fst (handleProgressiveVideoAnalysis quiet env_all_ok clip app0)) = Some [90, 85, 80, 80]"
    "map_option (map label \<circ> published)
     (fst (handleProgressiveVideoAnalysis quiet env_all_ok clip app0))
     = Some [Likely_AI, Likely_AI, Likely_AI, Likely_AI]"
    by (simp_all add: run_defs env_all_ok_def)
  from final_equals_last_intermediate[OF h1 h2 h3, of quiet app0]
  have "\<exists>S w' earlier mid fin.
      handleProgressiveVideoAnalysis quiet env_all_ok clip app0 = (Some S, w') \<and>
      published S = earlier @ [mid, fin] \<and>
      probabilityAI fin = probabilityAI mid \<and> confidence fin = confidence mid \<and>
      keyFeatures fin = keyFeatures mid"
    by (elim exE conjE) (intro exI conjI, assumption+)
  with h1 ts cap cls vals show ?thesis by blast
qed

subsection \<open>Removing the item during a session\<close>

lemma frames_loop_videoSrc:
  "videoSrc (fst (snd (frames_loop H E i n ts k S w))) = videoSrc S"
  by (induction ts arbitrary: k S w)
     (auto split: sum.splits simp: seek_def dispatch_def publish_def foldFrame_def)

text \<open>
  Claim C7 as stated fails.  A 25 second video has five segments.  The user removes the
  item while the capture of the second segment is pending, when one frame has been
  classified and folded.  The session still sends all five frames to the classifier,
  folds all five results, shows the final result and writes it to the history; the video
  element keeps its source until the loop has ended.
\<close>

theorem removal_does_not_stop_session:
  "timestamps_of 25 5 = [0, 5, 10, 15, 20] \<and>
   map_option (length \<circ> classified)
     (fst (handleProgressiveVideoAnalysis (remove_during_capture 1) env_five clip app0)) = Some 5 \<and>
   map_option (length \<circ> folded)
     (fst (handleProgressiveVideoAnalysis (remove_during_capture 1) env_five clip app0)) = Some 5 \<and>
   map_option (length \<circ> published)
     (fst (handleProgressiveVideoAnalysis (remove_during_capture 1) env_five clip app0)) = Some 6 \<and>
   length (classified (fst (snd (frames_loop (remove_during_capture 1) env_five ''v1'' 5 [0] 0
     (newSession ''blob:clip'') (startAnalysis ''v1'' 5 app0))))) = 1 \<and>
   videoSrc (fst (snd (frames_loop (remove_during_capture 1) env_five ''v1'' 5 [0, 5, 10, 15, 20] 0
     (newSession ''blob:clip'') (startAnalysis ''v1'' 5 app0)))) = Some ''blob:clip'' \<and>
   queue (snd (handleProgressiveVideoAnalysis (remove_during_capture 1) env_five clip app0)) = [] \<and>
   map_option probabilityAI (shownResult
     (snd (handleProgressiveVideoAnalysis (remove_during_capture 1) env_five clip app0))) = Some 80 \<and>
   shownResult (snd (handleProgressiveVideoAnalysis (remove_during_capture 1) env_five clip app0))
     = map_option (last \<circ> published)
         (fst (handleProgressiveVideoAnalysis (remove_during_capture 1) env_five clip app0)) \<and>
   length (history
     (snd (handleProgressiveVideoAnalysis (remove_during_capture 1) env_five clip app0))) = 1"
  by (simp add: run_defs env_five_def remove_during_capture_def removeFile_def)

lemma final_result_shown_and_saved:
  assumes run: "handleProgressiveVideoAnalysis H E item w = (Some S, w')"
    and final: "length (published S) = Suc (length (folded S))"
  shows "shownResult w' = Some (last (published S)) \<and> history w' \<noteq> [] \<and>
         h_result (hd (history w')) = last (published S) \<and>
         h_mediaType (hd (history w')) = VIDEO \<and>
         h_fileName (hd (history w')) = Some (fileName item)"
proof -
  let ?ts = "timestamps_of (videoDuration E) (sampleInterval E)"
  let ?n = "length ?ts"
  from run obtain url thrown S1 w1 S2 where
    loop: "frames_loop H E (qid item) ?n ?ts 0 (newSession url)
       (startAnalysis (qid item) ?n (H AwaitMetadata w)) = (thrown, S1, w1)"
    and fin: "finish item ?n (thrown, S1, w1) = (S2, w')"
    and S: "S = S2\<lparr>videoSrc := None\<rparr>"
    by (rule handle_session)
  have cons: "consistent S1"
    using frames_loop_consistent[OF newSession_consistent, of H E "qid item" ?n ?ts 0 url
        "startAnalysis (qid item) ?n (H AwaitMetadata w)"] loop
    by simp
  then have len: "length (published S1) = length (folded S1)"
    by (simp add: consistent_def)
  show ?thesis
  proof (cases thrown)
    case (Some m)
    with fin have "S2 = S1" by (simp add: finish_def)
    with S len final show ?thesis by simp
  next
    case None
    show ?thesis
    proof (cases "lastResult S1")
      case None
      with \<open>thrown = None\<close> fin have "S2 = S1" by (simp add: finish_def)
      with S len final show ?thesis by simp
    next
      case (Some lr)
      with \<open>thrown = None\<close> fin have S2: "S2 = publish (finalResult S1 ?n) S1"
        and w': "w' = showFinal item ?n (finalResult S1 ?n) w1"
        by (simp_all add: finish_def)
      have "last (published S) = finalResult S1 ?n"
        by (simp add: S S2 publish_def)
      then show ?thesis
        by (simp add: w' showFinal_def addToast_def saveToHistory_def updateQueueItem_def
            setResult_def Let_def)
    qed
  qed
qed

lemma fold_shown:
  assumes "captureFrame E t \<noteq> []" and "detectAIContent E k (captureFrame E t) = Inr fr"
  shows "fst (frames_loop H E i n [t] k S w) = None \<and>
         folded (fst (snd (frames_loop H E i n [t] k S w))) = folded S @ [fr] \<and>
         shownResult (snd (snd (frames_loop H E i n [t] k S w))) =
           Some (last (published (fst (snd (frames_loop H E i n [t] k S w)))))"
  using assms
  by (simp add: publish_def foldFrame_def dispatch_def seek_def showProgress_def
      updateQueueItem_def setResult_def)

text \<open>
  Claim C7, amended.  The session has no cancellation.  Whatever other handlers do to
  the application state while it is suspended (removing the item, clearing the queue),
  it makes the same captures and classification calls, folds the same results and
  computes the same intermediate and final results as an undisturbed session.  A frame
  that is captured and classified is folded, and its result is shown, when the call
  returns.  Whenever the session computes a final result, that result is shown and is
  saved as the newest entry of the history.  The loop never detaches the media element;
  the source is removed when the function ends.  An update addressed to an item that is
  no longer in the queue leaves the state as it is, so a removed item is not put back
  and gets no status.
\<close>

theorem session_not_cancellable:
  "fst (handleProgressiveVideoAnalysis H E item w) =
     fst (handleProgressiveVideoAnalysis quiet E item w') \<and>
   videoSrc (fst (snd (frames_loop H E i n ts k S w))) = videoSrc S \<and>
   (\<forall>S'. fst (handleProgressiveVideoAnalysis H E item w) = Some S' \<longrightarrow> videoSrc S' = None) \<and>
   ((\<forall>q \<in> set (queue w). qid q \<noteq> i) \<longrightarrow> updateQueueItem i u w = w) \<and>
   (captureFrame E t \<noteq> [] \<and> detectAIContent E k (captureFrame E t) = Inr fr \<longrightarrow>
      fst (frames_loop H E i n [t] k S w) = None \<and>
      folded (fst (snd (frames_loop H E i n [t] k S w))) = folded S @ [fr] \<and>
      shownResult (snd (snd (frames_loop H E i n [t] k S w))) =
        Some (last (published (fst (snd (frames_loop H E i n [t] k S w)))))) \<and>
   (handleProgressiveVideoAnalysis H E item w = (Some Sfin, Wfin) \<and>
    length (published Sfin) = Suc (length (folded Sfin)) \<longrightarrow>
      shownResult Wfin = Some (last (published Sfin)) \<and> history Wfin \<noteq> [] \<and>
      h_result (hd (history Wfin)) = last (published Sfin) \<and>
      h_mediaType (hd (history Wfin)) = VIDEO \<and>
      h_fileName (hd (history Wfin)) = Some (fileName item))"
proof (intro conjI)
  show "fst (handleProgressiveVideoAnalysis H E item w) =
     fst (handleProgressiveVideoAnalysis quiet E item w')"
  proof (cases "previewUrl item")
    case None
    then show ?thesis by (simp add: handleProgressiveVideoAnalysis_def)
  next
    case (Some url)
    show ?thesis
    proof (cases "url = []")
      case True
      with Some show ?thesis by (simp add: handleProgressiveVideoAnalysis_def)
    next
      case False
      let ?ts = "timestamps_of (videoDuration E) (sampleInterval E)"
      let ?n = "length ?ts"
      let ?a = "frames_loop H E (qid item) ?n ?ts 0 (newSession url)
                  (startAnalysis (qid item) ?n (H AwaitMetadata w))"
      let ?b = "frames_loop quiet E (qid item) ?n ?ts 0 (newSession url)
                  (startAnalysis (qid item) ?n (quiet AwaitMetadata w'))"
      have same: "fst ?a = fst ?b" "fst (snd ?a) = fst (snd ?b)"
        using frames_loop_session_independent[of H E "qid item" ?n ?ts 0 "newSession url" _ quiet "qid item"]
        by blast+
      have "fst (finish item ?n ?a) = fst (finish item ?n (fst ?a, fst (snd ?a), snd (snd ?b)))"
        using finish_session_independent[of item ?n "fst ?a" "fst (snd ?a)" "snd (snd ?a)"] by simp
      also have "\<dots> = fst (finish item ?n ?b)"
        by (simp add: same)
      finally show ?thesis
        unfolding handle_unfold[OF Some False] by simp
    qed
  qed
  show "videoSrc (fst (snd (frames_loop H E i n ts k S w))) = videoSrc S"
    by (rule frames_loop_videoSrc)
  show "\<forall>S'. fst (handleProgressiveVideoAnalysis H E item w) = Some S' \<longrightarrow> videoSrc S' = None"
    by (auto simp: handleProgressiveVideoAnalysis_def Let_def split: option.splits if_splits prod.splits)
  show "(\<forall>q \<in> set (queue w). qid q \<noteq> i) \<longrightarrow> updateQueueItem i u w = w"
    by (auto simp: updateQueueItem_def map_idI)
  show "captureFrame E t \<noteq> [] \<and> detectAIContent E k (captureFrame E t) = Inr fr \<longrightarrow>
      fst (frames_loop H E i n [t] k S w) = None \<and>
      folded (fst (snd (frames_loop H E i n [t] k S w))) = folded S @ [fr] \<and>
      shownResult (snd (snd (frames_loop H E i n [t] k S w))) =
        Some (last (published (fst (snd (frames_loop H E i n [t] k S w)))))"
    using fold_shown[of E t k fr H i n S w] by blast
  show "handleProgressiveVideoAnalysis H E item w = (Some Sfin, Wfin) \<and>
    length (published Sfin) = Suc (length (folded Sfin)) \<longrightarrow>
      shownResult Wfin = Some (last (published Sfin)) \<and> history Wfin \<noteq> [] \<and>
      h_result (hd (history Wfin)) = last (published Sfin) \<and>
      h_mediaType (hd (history Wfin)) = VIDEO \<and>
      h_fileName (hd (history Wfin)) = Some (fileName item)"
    using final_result_shown_and_saved[of H E item w Sfin Wfin] by blast
qed

theorem session_not_cancellable_witness:
  "fst (handleProgressiveVideoAnalysis (remove_during_capture 1) env_five clip app0) =
     fst (handleProgressiveVideoAnalysis quiet env_five clip app0) \<and>
   map_option videoSrc
     (fst (handleProgressiveVideoAnalysis (remove_during_capture 1) env_five clip app0))
     = Some None \<and>
   queue (removeFile ''v1'' app0) = [] \<and>
   updateQueueItem ''v1'' (no_updates\<lparr>u_status := Some Done\<rparr>) (removeFile ''v1'' app0)
     = removeFile ''v1'' app0 \<and>
   captureFrame env_five 5 \<noteq> [] \<and>
   detectAIContent env_five 1 (captureFrame env_five 5) = Inr (frame 80 90 []) \<and>
   map_option (length \<circ> published)
     (fst (handleProgressiveVideoAnalysis (remove_during_capture 1) env_five clip app0)) = Some 6 \<and>
   map_option (length \<circ> folded)
     (fst (handleProgressiveVideoAnalysis (remove_during_capture 1) env_five clip app0)) = Some 5 \<and>
   shownResult (snd (handleProgressiveVideoAnalysis (remove_during_capture 1) env_five clip app0))
     = map_option (last \<circ> published)
         (fst (handleProgressiveVideoAnalysis (remove_during_capture 1) env_five clip app0)) \<and>
   map (probabilityAI \<circ> h_result)
     (history (snd (handleProgressiveVideoAnalysis (remove_during_capture 1) env_five clip app0)))
     = [80]"
proof -
  let ?run = "handleProgressiveVideoAnalysis (remove_during_capture 1) env_five clip app0"
  have "fst ?run \<noteq> None"
    by (simp add: run_defs env_five_def)
  then obtain S0 where some: "fst ?run = Some S0"
    by auto
  then have run: "?run = (Some S0, snd ?run)"
    by (metis prod.collapse)
  note inst = session_not_cancellable[where H = "remove_during_capture 1" and E = env_five
      and item = clip and w = app0 and w' = app0 and i = "''v1''" and n = 5 and ts = "[]"
      and k = 1 and S = "newSession ''blob:clip''" and t = 5 and fr = "frame 80 90 []"
      and Sfin = S0 and Wfin = "snd ?run"]
  have lens: "map_option (length \<circ> published) (fst ?run) = Some 6"
    "map_option (length \<circ> folded) (fst ?run) = Some 5"
    by (simp_all add: run_defs env_five_def)
  with some have final: "length (published S0) = Suc (length (folded S0))"
    by simp
  have same: "fst ?run = fst (handleProgressiveVideoAnalysis quiet env_five clip app0)"
    using inst by blast
  have "videoSrc S0 = None"
    using inst some by blast
  with some have rel: "map_option videoSrc (fst ?run) = Some None"
    by simp
  have gone: "queue (removeFile ''v1'' app0) = []"
    by (simp add: removeFile_def app0_def clip_def)
  have upd: "updateQueueItem ''v1'' (no_updates\<lparr>u_status := Some Done\<rparr>) (removeFile ''v1'' app0)
     = removeFile ''v1'' app0"
    using session_not_cancellable[where w = "removeFile ''v1'' app0" and i = "''v1''"
        and u = "no_updates\<lparr>u_status := Some Done\<rparr>"] gone
    by simp
  have cap: "captureFrame env_five 5 \<noteq> []"
    "detectAIContent env_five 1 (captureFrame env_five 5) = Inr (frame 80 90 [])"
    by (simp_all add: env_five_def)
  from inst run final have shown: "shownResult (snd ?run) = Some (last (published S0))"
    by blast
  with some have sh: "shownResult (snd ?run) = map_option (last \<circ> published) (fst ?run)"
    by simp
  have "map (probabilityAI \<circ> h_result) (history (snd ?run)) = [80]"
    by (simp add: run_defs env_five_def remove_during_capture_def removeFile_def)
  with same rel gone upd cap lens sh show ?thesis by simp
qed

end
